theory Spec2Isabelle
  imports Main
begin

unbundle bit_operations_syntax

section \<open>The regolae of Nicolaus de Capua: data model\<close>

text \<open>
  The embedding follows \<^verbatim>\<open>trecento/capua.py\<close>. A music21 \<^verbatim>\<open>Accidental\<close> is identified
  by its name (\<^verbatim>\<open>pitch.Accidental('sharp')\<close>); a \<^verbatim>\<open>Pitch\<close> has a step name (\<^verbatim>\<open>'C'\<close> ..
  \<^verbatim>\<open>'B'\<close>), an optional accidental and an octave.
\<close>

datatype accidental = Accidental string

record pitch =
  step :: string
  accidental :: "accidental option"
  octave :: int

text \<open>
  The part of a music21 \<^verbatim>\<open>Interval\<close> that the module reads: the diatonic and generic
  components (both \<^verbatim>\<open>None\<close> for a purely chromatic interval) and three of its names.
\<close>

record diatonicInterval =
  name :: string
  specificName :: string

record genericInterval =
  perfectable :: bool
  simpleUndirected :: int

record interval =
  diatonic :: "diatonicInterval option"
  generic :: "genericInterval option"
  niceName :: string
  simpleName :: string
  semiSimpleName :: string

text \<open>
  \<^verbatim>\<open>Note.editorial\<close> is a dictionary with attribute access. For every key the module uses,
  the outer \<open>option\<close> says whether the key is present (\<^verbatim>\<open>'capuaFicta' in n.editorial\<close>,
  \<^verbatim>\<open>hasattr(n.editorial, 'savedAccidental')\<close>) and the inner one is the stored value, which
  may be Python's \<^verbatim>\<open>None\<close>.

  The keys \<^verbatim>\<open>ficta\<close> and \<^verbatim>\<open>harmonicInterval\<close> are special: the module reads them
  without any guard (\<^verbatim>\<open>if note1.editorial.ficta is not None\<close> in \<^verbatim>\<open>fictaToAccidental\<close>,
  \<^verbatim>\<open>if interval1 is None\<close> in \<^verbatim>\<open>compareOnesrcStream\<close>), so reading an absent one yields
  \<^verbatim>\<open>None\<close> and leaves the key present with that value; \<^verbatim>\<open>hasattr\<close> on them is therefore
  always true. \<open>readFicta\<close>, \<open>touchFicta\<close> and \<open>readHarmonicInterval\<close> are that read.
\<close>

record editorial =
  ficta :: "accidental option option"
  pmfcFicta :: "accidental option option"
  capuaFicta :: "accidental option option"
  savedAccidental :: "accidental option option"
  savedFicta :: "accidental option option"
  capuaRuleNumber :: "int option"
  harmonicInterval :: "interval option option"

definition readFicta :: "editorial \<Rightarrow> accidental option" where
  "readFicta e = (case ficta e of None \<Rightarrow> None | Some v \<Rightarrow> v)"

definition touchFicta :: "editorial \<Rightarrow> editorial" where
  "touchFicta e = e\<lparr>ficta := Some (readFicta e)\<rparr>"

definition readHarmonicInterval :: "editorial \<Rightarrow> interval option" where
  "readHarmonicInterval e = (case harmonicInterval e of None \<Rightarrow> None | Some v \<Rightarrow> v)"

text \<open>
  An element of a flat stream (\<^verbatim>\<open>notesAndRests\<close>) is a note or a rest. A rest has no
  pitch in music21; here its \<open>pitch\<close> field is simply never read: the rules test
  \<open>isRest\<close> first, and \<^verbatim>\<open>applyCapuaToStream\<close> and \<^verbatim>\<open>clearFicta\<close> walk \<^verbatim>\<open>.notes\<close>, the
  elements that are not rests. \<open>color\<close> is \<^verbatim>\<open>n.style.color\<close>.
\<close>

record general_note =
  isRest :: bool
  pitch :: pitch
  editorial :: editorial
  color :: "string option"

type_synonym stream = "general_note list"

datatype error = CapuaException | KeyError | AttributeError

definition RULE_ONE :: int where "RULE_ONE = 1"
definition RULE_TWO :: int where "RULE_TWO = 2"
definition RULE_THREE :: int where "RULE_THREE = 4"
definition RULE_FOUR_A :: int where "RULE_FOUR_A = 8"
definition RULE_FOUR_B :: int where "RULE_FOUR_B = 16"

section \<open>The ficta annotation store\<close>

text \<open>\<^verbatim>\<open>clearAccidental\<close>: moves the accidental to \<^verbatim>\<open>savedAccidental\<close>, if there is one.\<close>

definition clearAccidental :: "general_note \<Rightarrow> general_note" where
  "clearAccidental note1 =
     (if accidental (pitch note1) \<noteq> None
      then note1\<lparr>editorial := (editorial note1)\<lparr>savedAccidental := Some (accidental (pitch note1))\<rparr>,
                 pitch := (pitch note1)\<lparr>accidental := None\<rparr>\<rparr>
      else note1)"

text \<open>\<^verbatim>\<open>restoreAccidental\<close>: acts whenever the key \<^verbatim>\<open>savedAccidental\<close> exists, whatever it holds.\<close>

definition restoreAccidental :: "general_note \<Rightarrow> general_note" where
  "restoreAccidental note1 =
     (case savedAccidental (editorial note1) of
        Some saved \<Rightarrow>
          note1\<lparr>pitch := (pitch note1)\<lparr>accidental := saved\<rparr>,
                editorial := (editorial note1)\<lparr>savedAccidental := Some None\<rparr>\<rparr>
      | None \<Rightarrow> note1)"

definition fictaToAccidental :: "general_note \<Rightarrow> general_note" where
  "fictaToAccidental note1 =
     (let n = note1\<lparr>editorial := touchFicta (editorial note1)\<rparr> in
      if readFicta (editorial n) \<noteq> None
      then (let n' = (if accidental (pitch n) \<noteq> None then clearAccidental n else n)
            in n'\<lparr>pitch := (pitch n')\<lparr>accidental := readFicta (editorial n')\<rparr>\<rparr>)
      else n)"

definition pmfcFictaToAccidental :: "general_note \<Rightarrow> general_note" where
  "pmfcFictaToAccidental note1 =
     (case pmfcFicta (editorial note1) of
        Some (Some v) \<Rightarrow>
          (let n = clearAccidental note1 in n\<lparr>pitch := (pitch n)\<lparr>accidental := Some v\<rparr>\<rparr>)
      | _ \<Rightarrow> note1)"

definition capuaFictaToAccidental :: "general_note \<Rightarrow> general_note" where
  "capuaFictaToAccidental note1 =
     (case capuaFicta (editorial note1) of
        Some (Some v) \<Rightarrow>
          (let n = clearAccidental note1 in n\<lparr>pitch := (pitch n)\<lparr>accidental := Some v\<rparr>\<rparr>)
      | _ \<Rightarrow> note1)"

text \<open>
  \<^verbatim>\<open>clearFicta\<close> walks \<^verbatim>\<open>srcStream1.flat.notes\<close>: the rests are left alone. The
  \<^verbatim>\<open>hasattr\<close> test on \<^verbatim>\<open>ficta\<close> always succeeds.
\<close>

definition clearFicta :: "stream \<Rightarrow> stream" where
  "clearFicta srcStream1 =
     map (\<lambda>n2. if isRest n2 then n2
               else n2\<lparr>editorial := (editorial n2)\<lparr>savedFicta := Some (readFicta (editorial n2)),
                                                     ficta := Some None\<rparr>\<rparr>)
         srcStream1"

text \<open>\<^verbatim>\<open>restoreFicta\<close> walks every element of the stream.\<close>

definition restoreFicta :: "stream \<Rightarrow> stream" where
  "restoreFicta srcStream1 =
     map (\<lambda>n2. case savedFicta (editorial n2) of
                 Some (Some v) \<Rightarrow>
                   n2\<lparr>editorial := (editorial n2)\<lparr>ficta := Some (Some v), savedFicta := Some None\<rparr>\<rparr>
               | _ \<Rightarrow> n2)
         srcStream1"

section \<open>The interval classifier\<close>

definition PerfectCons :: "string list" where
  "PerfectCons = [''P1'', ''P5'', ''P8'']"

definition ImperfCons :: "string list" where
  "ImperfCons = [''m3'', ''M3'', ''m6'', ''M6'']"

definition Others :: "string list" where
  "Others = [''m2'', ''M2'', ''A2'', ''d3'', ''A3'', ''d4'', ''P4'', ''A4'', ''d5'', ''A5'', ''d6'',
             ''A6'', ''d7'', ''m7'', ''M7'', ''A7'']"

text \<open>
  \<^verbatim>\<open>getIntervalType\<close> returns \<^verbatim>\<open>None\<close> or one of three strings, or raises
  \<^verbatim>\<open>CapuaException\<close>.
\<close>

definition getIntervalType :: "interval option \<Rightarrow> error + string option" where
  "getIntervalType interval1 =
     (case interval1 of
        None \<Rightarrow> Inr None
      | Some i \<Rightarrow>
          (case diatonic i of
             None \<Rightarrow> Inr None
           | Some d \<Rightarrow>
               if name d \<in> set PerfectCons then Inr (Some ''perfect cons'')
               else if name d \<in> set ImperfCons then Inr (Some ''imperfect cons'')
               else if name d \<in> set Others then Inr (Some ''dissonance'')
               else Inl CapuaException))"

section \<open>Comparing Capua's ficta with the editors'\<close>

text \<open>
  The statistics dictionaries have a fixed set of keys, so they are records; the loop
  \<^verbatim>\<open>for thisKey in thisDict: totalDict[thisKey] += thisDict[thisKey]\<close> is \<open>addDict\<close>.
\<close>

record statsDict =
  totalNotes :: int
  pmfcAlt :: int
  capuaAlt :: int
  pmfcNotCapua :: int
  capuaNotPmfc :: int
  pmfcAndCapua :: int

definition zeroDict :: statsDict where
  "zeroDict = \<lparr>totalNotes = 0, pmfcAlt = 0, capuaAlt = 0, pmfcNotCapua = 0,
               capuaNotPmfc = 0, pmfcAndCapua = 0\<rparr>"

definition addDict :: "statsDict \<Rightarrow> statsDict \<Rightarrow> statsDict" where
  "addDict totalDict thisDict =
     \<lparr>totalNotes = totalNotes totalDict + totalNotes thisDict,
      pmfcAlt = pmfcAlt totalDict + pmfcAlt thisDict,
      capuaAlt = capuaAlt totalDict + capuaAlt thisDict,
      pmfcNotCapua = pmfcNotCapua totalDict + pmfcNotCapua thisDict,
      capuaNotPmfc = capuaNotPmfc totalDict + capuaNotPmfc thisDict,
      pmfcAndCapua = pmfcAndCapua totalDict + pmfcAndCapua thisDict\<rparr>"

definition compareNoteCapuaToEditor :: "general_note \<Rightarrow> statsDict" where
  "compareNoteCapuaToEditor note1 =
     (if isRest note1 then zeroDict
      else (let statsDict = zeroDict\<lparr>totalNotes := totalNotes zeroDict + 1\<rparr> in
            if pmfcFicta (editorial note1) \<noteq> None \<and> capuaFicta (editorial note1) \<noteq> None
            then statsDict\<lparr>pmfcAlt := pmfcAlt statsDict + 1,
                           capuaAlt := capuaAlt statsDict + 1,
                           pmfcAndCapua := pmfcAndCapua statsDict + 1\<rparr>
            else if pmfcFicta (editorial note1) \<noteq> None
            then statsDict\<lparr>pmfcAlt := pmfcAlt statsDict + 1,
                           pmfcNotCapua := pmfcNotCapua statsDict + 1\<rparr>
            else if capuaFicta (editorial note1) \<noteq> None
            then statsDict\<lparr>capuaAlt := capuaAlt statsDict + 1,
                           capuaNotPmfc := capuaNotPmfc statsDict + 1\<rparr>
            else statsDict))"

definition compareSrcStreamCapuaToEditor :: "stream \<Rightarrow> statsDict" where
  "compareSrcStreamCapuaToEditor srcStream1 =
     fold (\<lambda>note1 totalDict. addDict totalDict (compareNoteCapuaToEditor note1)) srcStream1 zeroDict"

section \<open>The rule pattern engine\<close>

text \<open>
  \<^verbatim>\<open>interval.notesToInterval(n1, n2).directedName\<close> belongs to music21, not to this module.
  The rules take it as the parameter \<open>dn\<close>, a function of the two pitches; every theorem
  below holds for any such function. A rule returns \<^verbatim>\<open>numChanged\<close> together with the
  stream as the in-place updates leave it.

  Each rule stores its number with
  \<^verbatim>\<open>if 'capuaRuleNumber' in n.editorial: n.editorial.capuaRuleNumber += R else: ... = R\<close>.
\<close>

definition bumpRule :: "int \<Rightarrow> editorial \<Rightarrow> editorial" where
  "bumpRule r e =
     e\<lparr>capuaRuleNumber := (case capuaRuleNumber e of Some v \<Rightarrow> Some (v + r) | None \<Rightarrow> Some r)\<rparr>"

definition capuaRuleOne_step :: "(pitch \<Rightarrow> pitch \<Rightarrow> string) \<Rightarrow> nat \<Rightarrow> nat \<times> stream \<Rightarrow> nat \<times> stream" where
  "capuaRuleOne_step dn i = (\<lambda>(numChanged, ssn).
     let n1 = ssn ! i; n2 = ssn ! (i + 1); n3 = ssn ! (i + 2) in
     if isRest n1 \<or> isRest n2 \<or> isRest n3 then (numChanged, ssn)
     else
       let i1 = dn (pitch n1) (pitch n2); i2 = dn (pitch n2) (pitch n3) in
       if accidental (pitch n1) \<noteq> None \<or> accidental (pitch n3) \<noteq> None then (numChanged, ssn)
       else if step (pitch n2) = ''A'' \<or> step (pitch n2) = ''D'' then (numChanged, ssn)
       else if i1 = ''M-2'' \<and> i2 = ''M2'' then
         (let n2 = n2\<lparr>editorial := bumpRule RULE_ONE (editorial n2)\<rparr> in
          if accidental (pitch n2) \<noteq> None \<and> accidental (pitch n2) = Some (Accidental ''flat'')
          then (numChanged + 1,
                ssn[i := n1\<lparr>color := Some ''blue''\<rparr>,
                    i + 1 := n2\<lparr>editorial := (editorial n2)
                                   \<lparr>savedAccidental := Some (accidental (pitch n2)),
                                    ficta := Some (Some (Accidental ''natural'')),
                                    capuaFicta := Some (Some (Accidental ''natural''))\<rparr>,
                                pitch := (pitch n2)\<lparr>accidental := None\<rparr>,
                                color := Some ''forestGreen''\<rparr>,
                    i + 2 := n3\<lparr>color := Some ''blue''\<rparr>])
          else (numChanged + 1,
                ssn[i := n1\<lparr>color := Some ''blue''\<rparr>,
                    i + 1 := n2\<lparr>editorial := (editorial n2)
                                   \<lparr>ficta := Some (Some (Accidental ''sharp'')),
                                    capuaFicta := Some (Some (Accidental ''sharp''))\<rparr>,
                                color := Some ''ForestGreen''\<rparr>,
                    i + 2 := n3\<lparr>color := Some ''blue''\<rparr>]))
       else (numChanged, ssn))"

text \<open>\<^verbatim>\<open>for i in range(len(ssn) - 2)\<close>: no iteration when the stream has fewer than three elements.\<close>

definition capuaRuleOne :: "(pitch \<Rightarrow> pitch \<Rightarrow> string) \<Rightarrow> stream \<Rightarrow> nat \<times> stream" where
  "capuaRuleOne dn srcStream = fold (capuaRuleOne_step dn) [0 ..< length srcStream - 2] (0, srcStream)"

definition capuaRuleTwo_step :: "(pitch \<Rightarrow> pitch \<Rightarrow> string) \<Rightarrow> nat \<Rightarrow> nat \<times> stream \<Rightarrow> nat \<times> stream" where
  "capuaRuleTwo_step dn i = (\<lambda>(numChanged, ssn).
     let n1 = ssn ! i; n2 = ssn ! (i + 1); n3 = ssn ! (i + 2); n4 = ssn ! (i + 3) in
     if isRest n1 \<or> isRest n2 \<or> isRest n3 \<or> isRest n4 then (numChanged, ssn)
     else
       let i1 = dn (pitch n1) (pitch n2); i2 = dn (pitch n2) (pitch n3);
           i3 = dn (pitch n3) (pitch n4) in
       if accidental (pitch n1) \<noteq> None \<or> accidental (pitch n2) \<noteq> None
          \<or> accidental (pitch n4) \<noteq> None then (numChanged, ssn)
       else if step (pitch n3) = ''A'' \<or> step (pitch n3) = ''D'' then (numChanged, ssn)
       else if i1 = ''M2'' \<and> i2 = ''m2'' \<and> i3 = ''M2'' then
         (let n3 = n3\<lparr>editorial := bumpRule RULE_TWO (editorial n3)\<rparr> in
          if accidental (pitch n3) \<noteq> None \<and> accidental (pitch n3) = Some (Accidental ''flat'')
          then (numChanged + 1,
                ssn[i := n1\<lparr>color := Some ''purple''\<rparr>,
                    i + 1 := n2\<lparr>color := Some ''purple''\<rparr>,
                    i + 2 := n3\<lparr>editorial := (editorial n3)
                                   \<lparr>savedAccidental := Some (accidental (pitch n3)),
                                    ficta := Some (Some (Accidental ''natural'')),
                                    capuaFicta := Some (Some (Accidental ''natural''))\<rparr>,
                                pitch := (pitch n3)\<lparr>accidental := None\<rparr>,
                                color := Some ''ForestGreen''\<rparr>,
                    i + 3 := n4\<lparr>color := Some ''purple''\<rparr>])
          else (numChanged + 1,
                ssn[i := n1\<lparr>color := Some ''purple''\<rparr>,
                    i + 1 := n2\<lparr>color := Some ''purple''\<rparr>,
                    i + 2 := n3\<lparr>editorial := (editorial n3)
                                   \<lparr>ficta := Some (Some (Accidental ''sharp'')),
                                    capuaFicta := Some (Some (Accidental ''sharp''))\<rparr>,
                                color := Some ''ForestGreen''\<rparr>,
                    i + 3 := n4\<lparr>color := Some ''purple''\<rparr>]))
       else (numChanged, ssn))"

definition capuaRuleTwo :: "(pitch \<Rightarrow> pitch \<Rightarrow> string) \<Rightarrow> stream \<Rightarrow> nat \<times> stream" where
  "capuaRuleTwo dn srcStream = fold (capuaRuleTwo_step dn) [0 ..< length srcStream - 3] (0, srcStream)"

definition capuaRuleThree_step :: "(pitch \<Rightarrow> pitch \<Rightarrow> string) \<Rightarrow> nat \<Rightarrow> nat \<times> stream \<Rightarrow> nat \<times> stream" where
  "capuaRuleThree_step dn i = (\<lambda>(numChanged, ssn).
     let n1 = ssn ! i; n2 = ssn ! (i + 1); n3 = ssn ! (i + 2) in
     if isRest n1 \<or> isRest n2 \<or> isRest n3 then (numChanged, ssn)
     else
       let i1 = dn (pitch n1) (pitch n2); i2 = dn (pitch n2) (pitch n3) in
       if accidental (pitch n1) \<noteq> None \<or> accidental (pitch n2) \<noteq> None
          \<or> accidental (pitch n3) \<noteq> None then (numChanged, ssn)
       else if step (pitch n2) = ''A'' \<or> step (pitch n2) = ''D'' then (numChanged, ssn)
       else if i1 = ''M-3'' \<and> i2 = ''M2'' then
         (let n2 = n2\<lparr>editorial := bumpRule RULE_THREE (editorial n2)\<rparr> in
          (numChanged + 1,
           ssn[i := n1\<lparr>color := Some ''DeepPink''\<rparr>,
               i + 1 := n2\<lparr>editorial := (editorial n2)
                              \<lparr>ficta := Some (Some (Accidental ''sharp'')),
                               capuaFicta := Some (Some (Accidental ''sharp''))\<rparr>,
                           color := Some ''ForestGreen''\<rparr>,
               i + 2 := n3\<lparr>color := Some ''DeepPink''\<rparr>]))
       else (numChanged, ssn))"

definition capuaRuleThree :: "(pitch \<Rightarrow> pitch \<Rightarrow> string) \<Rightarrow> stream \<Rightarrow> nat \<times> stream" where
  "capuaRuleThree dn srcStream = fold (capuaRuleThree_step dn) [0 ..< length srcStream - 2] (0, srcStream)"

definition capuaRuleFourA_step :: "(pitch \<Rightarrow> pitch \<Rightarrow> string) \<Rightarrow> nat \<Rightarrow> nat \<times> stream \<Rightarrow> nat \<times> stream" where
  "capuaRuleFourA_step dn i = (\<lambda>(numChanged, ssn).
     let n1 = ssn ! i; n2 = ssn ! (i + 1); n3 = ssn ! (i + 2) in
     if isRest n1 \<or> isRest n2 \<or> isRest n3 then (numChanged, ssn)
     else
       let i1 = dn (pitch n1) (pitch n2); i2 = dn (pitch n2) (pitch n3) in
       if accidental (pitch n1) \<noteq> None \<or> accidental (pitch n2) \<noteq> None
          \<or> accidental (pitch n3) \<noteq> None then (numChanged, ssn)
       else if step (pitch n2) = ''A'' \<or> step (pitch n2) = ''D'' then (numChanged, ssn)
       else if i1 = ''m-3'' \<and> i2 = ''M-2'' then
         (let n2 = n2\<lparr>editorial := bumpRule RULE_FOUR_A (editorial n2)\<rparr> in
          (numChanged + 1,
           ssn[i := n1\<lparr>color := Some ''orange''\<rparr>,
               i + 1 := n2\<lparr>editorial := (editorial n2)
                              \<lparr>ficta := Some (Some (Accidental ''flat'')),
                               capuaFicta := Some (Some (Accidental ''flat''))\<rparr>,
                           color := Some ''ForestGreen''\<rparr>,
               i + 2 := n3\<lparr>color := Some ''orange''\<rparr>]))
       else (numChanged, ssn))"

definition capuaRuleFourA :: "(pitch \<Rightarrow> pitch \<Rightarrow> string) \<Rightarrow> stream \<Rightarrow> nat \<times> stream" where
  "capuaRuleFourA dn srcStream = fold (capuaRuleFourA_step dn) [0 ..< length srcStream - 2] (0, srcStream)"

definition capuaRuleFourB_step :: "(pitch \<Rightarrow> pitch \<Rightarrow> string) \<Rightarrow> nat \<Rightarrow> nat \<times> stream \<Rightarrow> nat \<times> stream" where
  "capuaRuleFourB_step dn i = (\<lambda>(numChanged, ssn).
     let n1 = ssn ! i; n2 = ssn ! (i + 1); n3 = ssn ! (i + 2) in
     if isRest n1 \<or> isRest n2 \<or> isRest n3 then (numChanged, ssn)
     else
       let i1 = dn (pitch n1) (pitch n2); i2 = dn (pitch n2) (pitch n3) in
       if accidental (pitch n1) \<noteq> None \<or> accidental (pitch n3) \<noteq> None then (numChanged, ssn)
       else if step (pitch n2) = ''A'' \<or> step (pitch n2) = ''D'' then (numChanged, ssn)
       else if i1 = ''m3'' \<and> i2 = ''M2'' then
         (let n2 = n2\<lparr>editorial := bumpRule RULE_FOUR_B (editorial n2)\<rparr> in
          if accidental (pitch n2) \<noteq> None \<and> accidental (pitch n2) = Some (Accidental ''flat'')
          then (numChanged + 1,
                ssn[i := n1\<lparr>color := Some ''orange''\<rparr>,
                    i + 1 := n2\<lparr>editorial := (editorial n2)
                                   \<lparr>savedAccidental := Some (accidental (pitch n2)),
                                    ficta := Some (Some (Accidental ''natural'')),
                                    capuaFicta := Some (Some (Accidental ''natural''))\<rparr>,
                                pitch := (pitch n2)\<lparr>accidental := None\<rparr>,
                                color := Some ''green''\<rparr>,
                    i + 2 := n3\<lparr>color := Some ''orange''\<rparr>])
          else (numChanged + 1,
                ssn[i := n1\<lparr>color := Some ''orange''\<rparr>,
                    i + 1 := n2\<lparr>editorial := (editorial n2)
                                   \<lparr>ficta := Some (Some (Accidental ''sharp'')),
                                    capuaFicta := Some (Some (Accidental ''sharp''))\<rparr>,
                                color := Some ''green''\<rparr>,
                    i + 2 := n3\<lparr>color := Some ''orange''\<rparr>]))
       else (numChanged, ssn))"

definition capuaRuleFourB :: "(pitch \<Rightarrow> pitch \<Rightarrow> string) \<Rightarrow> stream \<Rightarrow> nat \<times> stream" where
  "capuaRuleFourB dn srcStream = fold (capuaRuleFourB_step dn) [0 ..< length srcStream - 2] (0, srcStream)"

text \<open>
  \<^verbatim>\<open>applyCapuaToStream\<close> first walks \<^verbatim>\<open>thisStream.notes\<close>: the \<^verbatim>\<open>hasattr\<close> test on
  \<^verbatim>\<open>ficta\<close> always succeeds, so every note that is not a rest has its ficta copied to
  \<^verbatim>\<open>pmfcFicta\<close> and its accidental cleared; then \<^verbatim>\<open>clearFicta\<close> runs. \<open>clearedStream\<close> is
  the stream at that point, before the first rule.
\<close>

definition clearedStream :: "stream \<Rightarrow> stream" where
  "clearedStream thisStream =
     clearFicta
       (map (\<lambda>n. if isRest n then n
                 else clearAccidental
                        (n\<lparr>editorial := (touchFicta (editorial n))
                                          \<lparr>pmfcFicta := Some (readFicta (editorial n))\<rparr>\<rparr>))
            thisStream)"

definition applyCapuaToStream :: "(pitch \<Rightarrow> pitch \<Rightarrow> string) \<Rightarrow> stream \<Rightarrow> stream" where
  "applyCapuaToStream dn thisStream =
     (let s0 = clearedStream thisStream;
          s1 = snd (capuaRuleOne dn s0);
          s2 = snd (capuaRuleTwo dn s1);
          s3 = snd (capuaRuleThree dn s2);
          s4 = snd (capuaRuleFourB dn s3)
      in s4)"

section \<open>Corpus-level searches\<close>

text \<open>
  \<^verbatim>\<open>cadencebook.BallataSheet().makeWork(j)\<close> and
  \<^verbatim>\<open>Stream.attachIntervalsBetweenStreams\<close> are collaborators outside this module; the
  corpus functions take them as the parameters \<open>makeWork\<close> and \<open>attach\<close> (\<open>attach a b\<close> is
  \<open>a\<close> after \<^verbatim>\<open>a.attachIntervalsBetweenStreams(b)\<close>). A work has a title, an incipit that
  may be unset, and a list of snippets, any of which may be \<^verbatim>\<open>None\<close>; a snippet has its
  class names and its parts, addressed by id (\<^verbatim>\<open>thisSnippetParts['C']\<close>).
\<close>

record snippet =
  classes :: "string list"
  parts :: "(string \<times> stream) list"

record work =
  title :: string
  incipit :: "snippet option"
  snippets :: "snippet option list"

text \<open>A loop whose body may raise: the first exception ends it.\<close>

fun foldE :: "('a \<Rightarrow> 's \<Rightarrow> error + 's) \<Rightarrow> 'a list \<Rightarrow> 's \<Rightarrow> error + 's" where
  "foldE f [] s = Inr s"
| "foldE f (x # xs) s = (case f x s of Inl e \<Rightarrow> Inl e | Inr s' \<Rightarrow> foldE f xs s')"

text \<open>\<^verbatim>\<open>totalDict\<close> of \<^verbatim>\<open>findCorrections\<close> has the key \<^verbatim>\<open>potentialChange\<close> too.\<close>

record correctionDict = statsDict +
  potentialChange :: int

definition zeroCorrectionDict :: correctionDict where
  "zeroCorrectionDict = \<lparr>totalNotes = 0, pmfcAlt = 0, capuaAlt = 0, pmfcNotCapua = 0,
                         capuaNotPmfc = 0, pmfcAndCapua = 0, potentialChange = 0\<rparr>"

text \<open>
  \<^verbatim>\<open>newResults = compareNoteCapuaToEditor(note1); newResults['potentialChange'] = 1\<close>, then
  every key of \<^verbatim>\<open>newResults\<close> is added to \<^verbatim>\<open>totalDict\<close>.
\<close>

definition addCorrection :: "correctionDict \<Rightarrow> statsDict \<Rightarrow> correctionDict" where
  "addCorrection totalDict newResults =
     \<lparr>totalNotes = totalNotes totalDict + totalNotes newResults,
      pmfcAlt = pmfcAlt totalDict + pmfcAlt newResults,
      capuaAlt = capuaAlt totalDict + capuaAlt newResults,
      pmfcNotCapua = pmfcNotCapua totalDict + pmfcNotCapua newResults,
      capuaNotPmfc = capuaNotPmfc totalDict + capuaNotPmfc newResults,
      pmfcAndCapua = pmfcAndCapua totalDict + pmfcAndCapua newResults,
      potentialChange = potentialChange totalDict + 1\<rparr>"

text \<open>The slice of following notes; \<open>None\<close> is the \<^verbatim>\<open>continue\<close> at the last note.\<close>

definition nextFewNotes :: "nat \<Rightarrow> nat \<Rightarrow> stream \<Rightarrow> stream option" where
  "nextFewNotes notesToCheck i srcStreamNotes =
     (let srcStreamLen = int (length srcStreamNotes) in
      if int i \<ge> srcStreamLen - int notesToCheck
      then (if int i = srcStreamLen - 1 then None else Some (drop (i + 1) srcStreamNotes))
      else Some (take notesToCheck (drop (i + 1) srcStreamNotes)))"

text \<open>
  The elements of the slice are notes, never \<^verbatim>\<open>None\<close>, so the \<^verbatim>\<open>raise\<close> inside this loop
  has no counterpart.
\<close>

definition foundP8 :: "string \<Rightarrow> stream \<Rightarrow> bool" where
  "foundP8 correctionType notes =
     fold (\<lambda>thisNote found.
             case readHarmonicInterval (editorial thisNote) of
               None \<Rightarrow> found
             | Some hI \<Rightarrow>
                 if correctionType = ''Maj3'' \<and> simpleName hI = ''P1'' then True
                 else if correctionType = ''min6'' \<and> semiSimpleName hI = ''P8'' then True
                 else found)
          notes False"

text \<open>
  The Opus is the list of the snippets inserted, each named by the number of its work and
  its position among the work's snippets. The state of the note loop is \<^verbatim>\<open>totalDict\<close>,
  the Opus and \<^verbatim>\<open>thisSnippetAppended\<close>.
\<close>

type_synonym opus = "(nat \<times> nat) list"

definition findCorrections_note ::
  "string \<Rightarrow> nat \<Rightarrow> string \<Rightarrow> nat \<times> nat \<Rightarrow> stream \<Rightarrow> nat \<times> general_note
   \<Rightarrow> correctionDict \<times> opus \<times> bool \<Rightarrow> correctionDict \<times> opus \<times> bool" where
  "findCorrections_note correctionType notesToCheck simpleNameToCheck thisSnippet srcStreamNotes =
     (\<lambda>(i, note1) (totalDict, foundPieceOpus, thisSnippetAppended).
        case readHarmonicInterval (editorial note1) of
          None \<Rightarrow> (totalDict, foundPieceOpus, thisSnippetAppended)
        | Some hI \<Rightarrow>
            if simpleName hI \<noteq> simpleNameToCheck
            then (totalDict, foundPieceOpus, thisSnippetAppended)
            else
              (case nextFewNotes notesToCheck i srcStreamNotes of
                 None \<Rightarrow> (totalDict, foundPieceOpus, thisSnippetAppended)
               | Some nextFew \<Rightarrow>
                   if \<not> foundP8 correctionType nextFew
                   then (totalDict, foundPieceOpus, thisSnippetAppended)
                   else
                     (let newResults = compareNoteCapuaToEditor note1 in
                      if capuaNotPmfc newResults = 1 \<and> \<not> thisSnippetAppended
                      then (addCorrection totalDict newResults,
                            foundPieceOpus @ [thisSnippet], True)
                      else (addCorrection totalDict newResults,
                            foundPieceOpus, thisSnippetAppended))))"

definition findCorrections_snippet ::
  "(pitch \<Rightarrow> pitch \<Rightarrow> string) \<Rightarrow> (stream \<Rightarrow> stream \<Rightarrow> stream) \<Rightarrow> string \<Rightarrow> nat \<Rightarrow> string
   \<Rightarrow> nat \<Rightarrow> nat \<times> snippet option \<Rightarrow> correctionDict \<times> opus \<Rightarrow> error + correctionDict \<times> opus" where
  "findCorrections_snippet dn attach correctionType notesToCheck simpleNameToCheck j =
     (\<lambda>(k, thisSnippet) (totalDict, foundPieceOpus).
        case thisSnippet of
          None \<Rightarrow> Inr (totalDict, foundPieceOpus)
        | Some sn \<Rightarrow>
            if ''Incipit'' \<in> set (classes sn) then Inr (totalDict, foundPieceOpus)
            else if length (parts sn) < 2 then Inr (totalDict, foundPieceOpus)
            else
              (case map_of (parts sn) ''C'' of
                 None \<Rightarrow> Inl KeyError
               | Some partC \<Rightarrow>
                   (case map_of (parts sn) ''T'' of
                      None \<Rightarrow> Inl KeyError
                    | Some partT \<Rightarrow>
                        (let thisSnippetAppended = False;
                             srcStream1 = attach partC partT;
                             srcStream2 = attach partT srcStream1;
                             (foundPieceOpus, thisSnippetAppended) =
                               (if thisSnippetAppended = False
                                then (foundPieceOpus @ [(j, k)], True)
                                else (foundPieceOpus, thisSnippetAppended));
                             srcStream1 = applyCapuaToStream dn srcStream1;
                             srcStream2 = applyCapuaToStream dn srcStream2;
                             (totalDict, foundPieceOpus, thisSnippetAppended) =
                               fold (\<lambda>ss state.
                                       let srcStreamNotes = filter (\<lambda>n. \<not> isRest n) ss in
                                       fold (findCorrections_note correctionType notesToCheck
                                               simpleNameToCheck (j, k) srcStreamNotes)
                                            (enumerate 0 srcStreamNotes) state)
                                    [srcStream1, srcStream2]
                                    (totalDict, foundPieceOpus, thisSnippetAppended)
                         in Inr (totalDict, foundPieceOpus)))))"

definition findCorrections_piece ::
  "(pitch \<Rightarrow> pitch \<Rightarrow> string) \<Rightarrow> (stream \<Rightarrow> stream \<Rightarrow> stream) \<Rightarrow> (nat \<Rightarrow> work) \<Rightarrow> string \<Rightarrow> nat
   \<Rightarrow> string \<Rightarrow> nat \<Rightarrow> correctionDict \<times> opus \<Rightarrow> error + correctionDict \<times> opus" where
  "findCorrections_piece dn attach makeWork correctionType notesToCheck simpleNameToCheck j state =
     (let pieceObj = makeWork j in
      if incipit pieceObj = None then Inr state
      else foldE (findCorrections_snippet dn attach correctionType notesToCheck simpleNameToCheck j)
                 (enumerate 0 (snippets pieceObj)) state)"

text \<open>\<open>findCorrections_over\<close> is the loop \<^verbatim>\<open>for j in ...\<close> over a given list of work numbers.\<close>

definition findCorrections_over ::
  "(pitch \<Rightarrow> pitch \<Rightarrow> string) \<Rightarrow> (stream \<Rightarrow> stream \<Rightarrow> stream) \<Rightarrow> (nat \<Rightarrow> work) \<Rightarrow> string
   \<Rightarrow> nat list \<Rightarrow> error + correctionDict \<times> opus" where
  "findCorrections_over dn attach makeWork correctionType js =
     (if correctionType = ''Maj3''
      then foldE (findCorrections_piece dn attach makeWork correctionType 1 ''m3'') js
                 (zeroCorrectionDict, [])
      else if correctionType = ''min6''
      then foldE (findCorrections_piece dn attach makeWork correctionType 2 ''M6'') js
                 (zeroCorrectionDict, [])
      else Inl CapuaException)"

definition findCorrections ::
  "(pitch \<Rightarrow> pitch \<Rightarrow> string) \<Rightarrow> (stream \<Rightarrow> stream \<Rightarrow> stream) \<Rightarrow> (nat \<Rightarrow> work) \<Rightarrow> string
   \<Rightarrow> nat \<Rightarrow> nat \<Rightarrow> error + correctionDict \<times> opus" where
  "findCorrections dn attach makeWork correctionType startPiece endPiece =
     findCorrections_over dn attach makeWork correctionType [startPiece ..< endPiece]"

record checkDict =
  perfIgnored :: int
  perfCapua :: int
  imperfIgnored :: int
  imperfCapua :: int

text \<open>
  Reading \<^verbatim>\<open>hI.generic.perfectable\<close> or \<^verbatim>\<open>hI.diatonic.specificName\<close> of an interval that
  lacks the component raises \<^verbatim>\<open>AttributeError\<close>.
\<close>

definition improvedHarmony_note :: "general_note \<Rightarrow> checkDict \<Rightarrow> error + checkDict" where
  "improvedHarmony_note note1 checkDict =
     (case readHarmonicInterval (editorial note1) of
        None \<Rightarrow> Inr checkDict
      | Some hI \<Rightarrow>
          (case generic hI of
             None \<Rightarrow> Inl AttributeError
           | Some g \<Rightarrow>
               if perfectable g = False \<or> simpleUndirected g = 4 then Inr checkDict
               else
                 (case diatonic hI of
                    None \<Rightarrow> Inl AttributeError
                  | Some d \<Rightarrow>
                      if specificName d = ''Perfect''
                      then (if capuaFicta (editorial note1) \<noteq> None
                            then Inr (checkDict\<lparr>perfCapua := perfCapua checkDict + 1\<rparr>)
                            else Inr (checkDict\<lparr>perfIgnored := perfIgnored checkDict + 1\<rparr>))
                      else (if capuaFicta (editorial note1) \<noteq> None
                            then Inr (checkDict\<lparr>imperfCapua := imperfCapua checkDict + 1\<rparr>)
                            else Inr (checkDict\<lparr>imperfIgnored := imperfIgnored checkDict + 1\<rparr>)))))"

definition improvedHarmony_snippet ::
  "(pitch \<Rightarrow> pitch \<Rightarrow> string) \<Rightarrow> (stream \<Rightarrow> stream \<Rightarrow> stream) \<Rightarrow> snippet option
   \<Rightarrow> checkDict \<Rightarrow> error + checkDict" where
  "improvedHarmony_snippet dn attach thisSnippet checkDict =
     (case thisSnippet of
        None \<Rightarrow> Inr checkDict
      | Some sn \<Rightarrow>
          if ''Incipit'' \<in> set (classes sn) then Inr checkDict
          else if length (parts sn) < 2 then Inr checkDict
          else
            (case map_of (parts sn) ''C'' of
               None \<Rightarrow> Inl KeyError
             | Some partC \<Rightarrow>
                 (case map_of (parts sn) ''T'' of
                    None \<Rightarrow> Inl KeyError
                  | Some partT \<Rightarrow>
                      (let srcStream1 = attach partC partT;
                           srcStream2 = partT;
                           srcStream1 = applyCapuaToStream dn srcStream1
                       in foldE (\<lambda>ss. foldE improvedHarmony_note (filter (\<lambda>n. \<not> isRest n) ss))
                                [srcStream1, srcStream2] checkDict))))"

definition improvedHarmony_piece ::
  "(pitch \<Rightarrow> pitch \<Rightarrow> string) \<Rightarrow> (stream \<Rightarrow> stream \<Rightarrow> stream) \<Rightarrow> (nat \<Rightarrow> work) \<Rightarrow> nat
   \<Rightarrow> checkDict \<Rightarrow> error + checkDict" where
  "improvedHarmony_piece dn attach makeWork j checkDict =
     (let pieceObj = makeWork j in
      if incipit pieceObj = None then Inr checkDict
      else foldE (improvedHarmony_snippet dn attach) (snippets pieceObj) checkDict)"

definition improvedHarmony_over ::
  "(pitch \<Rightarrow> pitch \<Rightarrow> string) \<Rightarrow> (stream \<Rightarrow> stream \<Rightarrow> stream) \<Rightarrow> (nat \<Rightarrow> work) \<Rightarrow> nat list
   \<Rightarrow> error + checkDict" where
  "improvedHarmony_over dn attach makeWork js =
     foldE (improvedHarmony_piece dn attach makeWork) js
           \<lparr>perfIgnored = 0, perfCapua = 0, imperfIgnored = 0, imperfCapua = 0\<rparr>"

definition improvedHarmony ::
  "(pitch \<Rightarrow> pitch \<Rightarrow> string) \<Rightarrow> (stream \<Rightarrow> stream \<Rightarrow> stream) \<Rightarrow> (nat \<Rightarrow> work) \<Rightarrow> nat \<Rightarrow> nat
   \<Rightarrow> error + checkDict" where
  "improvedHarmony dn attach makeWork startPiece endPiece =
     improvedHarmony_over dn attach makeWork [startPiece ..< endPiece]"

section \<open>A reference instance of the interval primitive\<close>

text \<open>
  To run the rules on concrete melodies, \<open>directedName\<close> computes the directed name of the
  interval between two pitches the usual way: the generic size from the staff distance, the
  quality from the distance in semitones (\<^verbatim>\<open>'M-2'\<close> is a descending major second). It is
  used only to instantiate the parameter \<open>dn\<close> on examples.
\<close>

definition stepNumber :: "string \<Rightarrow> int" where
  "stepNumber s = (if s = ''C'' then 0 else if s = ''D'' then 1 else if s = ''E'' then 2
     else if s = ''F'' then 3 else if s = ''G'' then 4 else if s = ''A'' then 5 else 6)"

definition stepSemitones :: "int \<Rightarrow> int" where
  "stepSemitones k = (if k = 0 then 0 else if k = 1 then 2 else if k = 2 then 4
     else if k = 3 then 5 else if k = 4 then 7 else if k = 5 then 9 else 11)"

definition alter :: "accidental option \<Rightarrow> int" where
  "alter a = (if a = Some (Accidental ''sharp'') then 1
     else if a = Some (Accidental ''flat'') then - 1
     else if a = Some (Accidental ''double-sharp'') then 2
     else if a = Some (Accidental ''double-flat'') then - 2 else 0)"

definition diatonicNoteNum :: "pitch \<Rightarrow> int" where
  "diatonicNoteNum p = stepNumber (step p) + 7 * octave p + 1"

definition ps :: "pitch \<Rightarrow> int" where
  "ps p = 12 * (octave p + 1) + stepSemitones (stepNumber (step p)) + alter (accidental p)"

definition specifier :: "bool \<Rightarrow> int \<Rightarrow> string" where
  "specifier perfect off =
     (if perfect
      then (if off = 0 then ''P'' else if off = 1 then ''A'' else if off = - 1 then ''d''
            else if off = 2 then ''AA'' else if off = - 2 then ''dd'' else ''?'')
      else (if off = 0 then ''M'' else if off = - 1 then ''m'' else if off = 1 then ''A''
            else if off = - 2 then ''d'' else if off = 2 then ''AA'' else if off = - 3 then ''dd''
            else ''?''))"

fun showNat :: "nat \<Rightarrow> string" where
  "showNat n = (if n < 10 then [''0123456789'' ! n]
                else showNat (n div 10) @ [''0123456789'' ! (n mod 10)])"

declare showNat.simps [simp del]

definition directedName :: "pitch \<Rightarrow> pitch \<Rightarrow> string" where
  "directedName p q =
     (let g = diatonicNoteNum q - diatonicNoteNum p;
          c = ps q - ps p;
          ug = \<bar>g\<bar>;
          uc = (if g < 0 then - c else c);
          simple = ug mod 7;
          off = uc - (stepSemitones simple + 12 * (ug div 7))
      in specifier (simple = 0 \<or> simple = 3 \<or> simple = 4) off
         @ (if g < 0 then ''-'' else []) @ showNat (nat ug + 1))"

text \<open>A fresh note: no editorial key set, no colour.\<close>

definition emptyEditorial :: editorial where
  "emptyEditorial = \<lparr>ficta = None, pmfcFicta = None, capuaFicta = None, savedAccidental = None,
                     savedFicta = None, capuaRuleNumber = None, harmonicInterval = None\<rparr>"

definition mkNote :: "string \<Rightarrow> accidental option \<Rightarrow> int \<Rightarrow> general_note" where
  "mkNote s a oct = \<lparr>isRest = False, pitch = \<lparr>step = s, accidental = a, octave = oct\<rparr>,
                     editorial = emptyEditorial, color = None\<rparr>"

section \<open>Vocabulary of the proofs\<close>

text \<open>
  What a rule's test reads of a stream element (whether it is a rest, and its pitch), and
  the rule number stored on it.
\<close>

definition skel :: "general_note \<Rightarrow> bool \<times> pitch" where
  "skel n = (isRest n, pitch n)"

definition ruleNumber :: "general_note \<Rightarrow> int option" where
  "ruleNumber n = capuaRuleNumber (editorial n)"

definition noAccidentals :: "stream \<Rightarrow> bool" where
  "noAccidentals s = list_all (\<lambda>n. isRest n \<or> accidental (pitch n) = None) s"

text \<open>The test of each rule on the window that starts at position \<open>i\<close>.\<close>

definition ruleOne_match :: "(pitch \<Rightarrow> pitch \<Rightarrow> string) \<Rightarrow> stream \<Rightarrow> nat \<Rightarrow> bool" where
  "ruleOne_match dn ssn i =
     (\<not> isRest (ssn ! i) \<and> \<not> isRest (ssn ! (i + 1)) \<and> \<not> isRest (ssn ! (i + 2))
      \<and> accidental (pitch (ssn ! i)) = None \<and> accidental (pitch (ssn ! (i + 2))) = None
      \<and> step (pitch (ssn ! (i + 1))) \<noteq> ''A'' \<and> step (pitch (ssn ! (i + 1))) \<noteq> ''D''
      \<and> dn (pitch (ssn ! i)) (pitch (ssn ! (i + 1))) = ''M-2''
      \<and> dn (pitch (ssn ! (i + 1))) (pitch (ssn ! (i + 2))) = ''M2'')"

definition ruleTwo_match :: "(pitch \<Rightarrow> pitch \<Rightarrow> string) \<Rightarrow> stream \<Rightarrow> nat \<Rightarrow> bool" where
  "ruleTwo_match dn ssn i =
     (\<not> isRest (ssn ! i) \<and> \<not> isRest (ssn ! (i + 1)) \<and> \<not> isRest (ssn ! (i + 2))
      \<and> \<not> isRest (ssn ! (i + 3))
      \<and> accidental (pitch (ssn ! i)) = None \<and> accidental (pitch (ssn ! (i + 1))) = None
      \<and> accidental (pitch (ssn ! (i + 3))) = None
      \<and> step (pitch (ssn ! (i + 2))) \<noteq> ''A'' \<and> step (pitch (ssn ! (i + 2))) \<noteq> ''D''
      \<and> dn (pitch (ssn ! i)) (pitch (ssn ! (i + 1))) = ''M2''
      \<and> dn (pitch (ssn ! (i + 1))) (pitch (ssn ! (i + 2))) = ''m2''
      \<and> dn (pitch (ssn ! (i + 2))) (pitch (ssn ! (i + 3))) = ''M2'')"

definition ruleThree_match :: "(pitch \<Rightarrow> pitch \<Rightarrow> string) \<Rightarrow> stream \<Rightarrow> nat \<Rightarrow> bool" where
  "ruleThree_match dn ssn i =
     (\<not> isRest (ssn ! i) \<and> \<not> isRest (ssn ! (i + 1)) \<and> \<not> isRest (ssn ! (i + 2))
      \<and> accidental (pitch (ssn ! i)) = None \<and> accidental (pitch (ssn ! (i + 1))) = None
      \<and> accidental (pitch (ssn ! (i + 2))) = None
      \<and> step (pitch (ssn ! (i + 1))) \<noteq> ''A'' \<and> step (pitch (ssn ! (i + 1))) \<noteq> ''D''
      \<and> dn (pitch (ssn ! i)) (pitch (ssn ! (i + 1))) = ''M-3''
      \<and> dn (pitch (ssn ! (i + 1))) (pitch (ssn ! (i + 2))) = ''M2'')"

definition ruleFourB_match :: "(pitch \<Rightarrow> pitch \<Rightarrow> string) \<Rightarrow> stream \<Rightarrow> nat \<Rightarrow> bool" where
  "ruleFourB_match dn ssn i =
     (\<not> isRest (ssn ! i) \<and> \<not> isRest (ssn ! (i + 1)) \<and> \<not> isRest (ssn ! (i + 2))
      \<and> accidental (pitch (ssn ! i)) = None \<and> accidental (pitch (ssn ! (i + 2))) = None
      \<and> step (pitch (ssn ! (i + 1))) \<noteq> ''A'' \<and> step (pitch (ssn ! (i + 1))) \<noteq> ''D''
      \<and> dn (pitch (ssn ! i)) (pitch (ssn ! (i + 1))) = ''m3''
      \<and> dn (pitch (ssn ! (i + 1))) (pitch (ssn ! (i + 2))) = ''M2'')"

text \<open>
  A rule fires on the note at position \<open>j\<close> when \<open>j\<close> is the pivot of a window of the
  stream that passes the rule's test: the second note of three, the third of four for
  rule two.
\<close>

definition ruleOne_fires :: "(pitch \<Rightarrow> pitch \<Rightarrow> string) \<Rightarrow> stream \<Rightarrow> nat \<Rightarrow> bool" where
  "ruleOne_fires dn s j = (1 \<le> j \<and> j + 1 < length s \<and> ruleOne_match dn s (j - 1))"

definition ruleTwo_fires :: "(pitch \<Rightarrow> pitch \<Rightarrow> string) \<Rightarrow> stream \<Rightarrow> nat \<Rightarrow> bool" where
  "ruleTwo_fires dn s j = (2 \<le> j \<and> j + 1 < length s \<and> ruleTwo_match dn s (j - 2))"

definition ruleThree_fires :: "(pitch \<Rightarrow> pitch \<Rightarrow> string) \<Rightarrow> stream \<Rightarrow> nat \<Rightarrow> bool" where
  "ruleThree_fires dn s j = (1 \<le> j \<and> j + 1 < length s \<and> ruleThree_match dn s (j - 1))"

definition ruleFourB_fires :: "(pitch \<Rightarrow> pitch \<Rightarrow> string) \<Rightarrow> stream \<Rightarrow> nat \<Rightarrow> bool" where
  "ruleFourB_fires dn s j = (1 \<le> j \<and> j + 1 < length s \<and> ruleFourB_match dn s (j - 1))"

text \<open>The sum of the constants of the rules that fire on position \<open>j\<close>.\<close>

definition provenance :: "(pitch \<Rightarrow> pitch \<Rightarrow> string) \<Rightarrow> stream \<Rightarrow> nat \<Rightarrow> int" where
  "provenance dn s j =
     (if ruleOne_fires dn s j then RULE_ONE else 0)
     + (if ruleTwo_fires dn s j then RULE_TWO else 0)
     + (if ruleThree_fires dn s j then RULE_THREE else 0)
     + (if ruleFourB_fires dn s j then RULE_FOUR_B else 0)"

text \<open>An interval known by its diatonic name, for examples.\<close>

definition namedInterval :: "string \<Rightarrow> interval" where
  "namedInterval nm = \<lparr>diatonic = Some \<lparr>name = nm, specificName = []\<rparr>, generic = None,
                       niceName = nm, simpleName = nm, semiSimpleName = nm\<rparr>"

text \<open>Everything of a stream element but its colour.\<close>

definition content :: "general_note \<Rightarrow> bool \<times> pitch \<times> editorial" where
  "content n = (isRest n, pitch n, editorial n)"

text \<open>
  Three melodies for the examples. In \<open>melodyAll\<close> each rule of the default pipeline finds
  one window: D E F G (rule two, pivot F at position 2), G F G (rule one, pivot F at 4),
  E C D (rule three, pivot C at 7) and D F G (rule four B, pivot F at 9).
\<close>

definition melodyAll :: stream where
  "melodyAll = [mkNote ''D'' None 4, mkNote ''E'' None 4, mkNote ''F'' None 4, mkNote ''G'' None 4,
                mkNote ''F'' None 4, mkNote ''G'' None 4, mkNote ''E'' None 4, mkNote ''C'' None 4,
                mkNote ''D'' None 4, mkNote ''F'' None 4, mkNote ''G'' None 4]"

definition melodyFlat :: stream where
  "melodyFlat = [mkNote ''D'' None 4, mkNote ''C'' None 5, mkNote ''B'' (Some (Accidental ''flat'')) 4,
                 mkNote ''C'' None 5, mkNote ''D'' None 5]"

definition melodyGFG :: stream where
  "melodyGFG = [mkNote ''G'' None 4, mkNote ''F'' None 4, mkNote ''G'' None 4]"

text \<open>
  D E F G, with no accidental and no editorial ficta anywhere: rule two finds its one
  window in it and proposes a sharp on the F.
\<close>

definition melodyDEFG :: stream where
  "melodyDEFG = [mkNote ''D'' None 4, mkNote ''E'' None 4, mkNote ''F'' None 4, mkNote ''G'' None 4]"

text \<open>
  A small corpus for the examples. Work 0 has no incipit. Work 1 has an incipit and two
  snippets: \<open>solo\<close>, with one part, and \<open>cadence\<close>, with parts C and T moving in parallel
  fifths, so that no note forms a minor third or a major sixth with the other voice. Each
  note carries its harmonic interval already, and \<open>storedIntervals\<close> stands for
  \<^verbatim>\<open>attachIntervalsBetweenStreams\<close> leaving it there.
\<close>

definition perfectFifth :: interval where
  "perfectFifth = \<lparr>diatonic = Some \<lparr>name = ''P5'', specificName = ''Perfect''\<rparr>,
                   generic = Some \<lparr>perfectable = True, simpleUndirected = 5\<rparr>,
                   niceName = ''Perfect Fifth'', simpleName = ''P5'', semiSimpleName = ''P5''\<rparr>"

definition fifthNote :: "string \<Rightarrow> int \<Rightarrow> general_note" where
  "fifthNote s oct =
     (mkNote s None oct)\<lparr>editorial := emptyEditorial\<lparr>harmonicInterval := Some (Some perfectFifth)\<rparr>\<rparr>"

definition cadence :: snippet where
  "cadence = \<lparr>classes = [''PolyphonicSnippet''],
              parts = [(''C'', [fifthNote ''C'' 5, fifthNote ''D'' 5]),
                       (''T'', [fifthNote ''F'' 4, fifthNote ''G'' 4])]\<rparr>"

definition solo :: snippet where
  "solo = \<lparr>classes = [''PolyphonicSnippet''],
           parts = [(''C'', [fifthNote ''C'' 5, fifthNote ''D'' 5])]\<rparr>"

definition corpus :: "nat \<Rightarrow> work" where
  "corpus j = (if j = 0 then \<lparr>title = ''unset'', incipit = None, snippets = [Some cadence]\<rparr>
               else \<lparr>title = ''ballata'', incipit = Some (cadence\<lparr>classes := [''Incipit'']\<rparr>),
                     snippets = [Some solo, Some cadence]\<rparr>)"

definition storedIntervals :: "stream \<Rightarrow> stream \<Rightarrow> stream" where
  "storedIntervals a b = a"


definition zeroCheckDict :: checkDict where
  "zeroCheckDict = \<lparr>perfIgnored = 0, perfCapua = 0, imperfIgnored = 0, imperfCapua = 0\<rparr>"

text \<open>
  The snippets that \<^verbatim>\<open>findCorrections\<close> processes: those that are not \<^verbatim>\<open>None\<close>, are not
  of class Incipit and have at least two parts, in the works whose incipit is set, in the
  order of the loops.
\<close>

definition isProcessed :: "snippet option \<Rightarrow> bool" where
  "isProcessed thisSnippet =
     (case thisSnippet of
        None \<Rightarrow> False
      | Some sn \<Rightarrow> ''Incipit'' \<notin> set (classes sn) \<and> \<not> length (parts sn) < 2)"

definition processedSnippets :: "(nat \<Rightarrow> work) \<Rightarrow> nat list \<Rightarrow> opus" where
  "processedSnippets makeWork js =
     concat (map (\<lambda>j. if incipit (makeWork j) = None then []
                       else map (\<lambda>(k, sn). (j, k))
                              (filter (\<lambda>(k, sn). isProcessed sn) (enumerate 0 (snippets (makeWork j)))))
                 js)"

text \<open>
  Streams that still carry flats. Rule one, rule two and rule four B take the flat off a
  pivot they annotate, so a later rule may read a pitch an earlier rule has changed. A
  stream \<open>b\<close> follows a stream \<open>a\<close> when it has the same rests and pitches, except at
  flats of \<open>a\<close> that a rule has taken off, and each such position is settled: it sits a
  minor second under both its neighbours (rule one's pivot), or on top of two major
  seconds and a minor second under the next note (rule two's pivot). The interval primitive
  is coherent when taking the flat off the lower note of a major second leaves a minor
  second, and off the upper note of a minor second or third leaves a major one.
\<close>

definition naturalised :: "pitch \<Rightarrow> pitch" where
  "naturalised p = p\<lparr>accidental := None\<rparr>"

definition coherent :: "(pitch \<Rightarrow> pitch \<Rightarrow> string) \<Rightarrow> bool" where
  "coherent dn =
     (\<forall>x y. accidental y = Some (Accidental ''flat'') \<longrightarrow>
        (dn x y = ''M-2'' \<longrightarrow> dn x (naturalised y) = ''m-2'')
        \<and> (dn y x = ''M2'' \<longrightarrow> dn (naturalised y) x = ''m2'')
        \<and> (dn x y = ''m2'' \<longrightarrow> dn x (naturalised y) = ''M2'')
        \<and> (dn x y = ''m3'' \<longrightarrow> dn x (naturalised y) = ''M3''))"

definition isFlat :: "general_note \<Rightarrow> bool" where
  "isFlat n = (\<not> isRest n \<and> accidental (pitch n) = Some (Accidental ''flat''))"

definition clean :: "general_note \<Rightarrow> bool" where
  "clean n = (\<not> isRest n \<and> accidental (pitch n) = None)"

definition settled1 :: "(pitch \<Rightarrow> pitch \<Rightarrow> string) \<Rightarrow> stream \<Rightarrow> nat \<Rightarrow> bool" where
  "settled1 dn b j =
     (1 \<le> j \<and> j + 1 < length b
      \<and> clean (b ! (j - 1)) \<and> clean (b ! j) \<and> clean (b ! (j + 1))
      \<and> dn (pitch (b ! (j - 1))) (pitch (b ! j)) = ''m-2''
      \<and> dn (pitch (b ! j)) (pitch (b ! (j + 1))) = ''m2'')"

definition settled2 :: "(pitch \<Rightarrow> pitch \<Rightarrow> string) \<Rightarrow> stream \<Rightarrow> nat \<Rightarrow> bool" where
  "settled2 dn b j =
     (2 \<le> j \<and> j + 1 < length b
      \<and> clean (b ! (j - 2)) \<and> clean (b ! (j - 1)) \<and> clean (b ! j) \<and> clean (b ! (j + 1))
      \<and> dn (pitch (b ! (j - 2))) (pitch (b ! (j - 1))) = ''M2''
      \<and> dn (pitch (b ! (j - 1))) (pitch (b ! j)) = ''M2''
      \<and> dn (pitch (b ! j)) (pitch (b ! (j + 1))) = ''m2'')"

definition follows :: "(pitch \<Rightarrow> pitch \<Rightarrow> string) \<Rightarrow> bool \<Rightarrow> stream \<Rightarrow> stream \<Rightarrow> bool" where
  "follows dn two a b =
     (length b = length a
      \<and> (\<forall>j<length a.
            skel (b ! j) = skel (a ! j)
            \<or> (isFlat (a ! j) \<and> skel (b ! j) = (False, naturalised (pitch (a ! j)))
                \<and> (settled1 dn b j \<or> two \<and> settled2 dn b j))))"

definition melodyMixed :: stream where
  "melodyMixed = melodyFlat @ melodyAll"

section \<open>Verified properties\<close>

subsection \<open>Promotion and restoration of an accidental\<close>

text \<open>
  C1. Promote/restore round trip. \<^verbatim>\<open>capuaFictaToAccidental\<close> followed by
  \<^verbatim>\<open>restoreAccidental\<close> is meant to leave the accidental of the pitch as it was before.
  On a note without an accidental it does not: \<^verbatim>\<open>clearAccidental\<close> saves an accidental
  only when there is one, and \<^verbatim>\<open>restoreAccidental\<close> acts only when the key
  \<^verbatim>\<open>savedAccidental\<close> exists. After \<^verbatim>\<open>applyCapuaToStream\<close> on D E F G, the F has no
  accidental, no \<^verbatim>\<open>savedAccidental\<close> key and the \<^verbatim>\<open>capuaFicta\<close> sharp; promoting and
  restoring leaves the sharp in the pitch.
\<close>

theorem promote_restore_keeps_ficta:
  "accidental (pitch (applyCapuaToStream directedName melodyDEFG ! 2)) = None
   \<and> savedAccidental (editorial (applyCapuaToStream directedName melodyDEFG ! 2)) = None
   \<and> capuaFicta (editorial (applyCapuaToStream directedName melodyDEFG ! 2))
       = Some (Some (Accidental ''sharp''))
   \<and> accidental (pitch (capuaFictaToAccidental (applyCapuaToStream directedName melodyDEFG ! 2)))
       = Some (Accidental ''sharp'')
   \<and> accidental (pitch (restoreAccidental
         (capuaFictaToAccidental (applyCapuaToStream directedName melodyDEFG ! 2))))
       = Some (Accidental ''sharp'')"
  by code_simp

text \<open>
  The same for every note without an accidental and without the key \<^verbatim>\<open>savedAccidental\<close>,
  whichever slot is promoted: the promoted value stays in the pitch.
\<close>

lemma promote_restore_without_accidental:
  assumes "accidental (pitch n) = None" and "savedAccidental (editorial n) = None"
  shows "capuaFicta (editorial n) = Some (Some v) \<Longrightarrow>
           accidental (pitch (restoreAccidental (capuaFictaToAccidental n))) = Some v"
    and "pmfcFicta (editorial n) = Some (Some w) \<Longrightarrow>
           accidental (pitch (restoreAccidental (pmfcFictaToAccidental n))) = Some w"
  using assms
  by (simp_all add: restoreAccidental_def capuaFictaToAccidental_def pmfcFictaToAccidental_def
        clearAccidental_def Let_def)

text \<open>
  When the key \<^verbatim>\<open>savedAccidental\<close> exists on a note without an accidental,
  \<^verbatim>\<open>restoreAccidental\<close> writes back whatever the key holds, a value saved before the
  promotion.
\<close>

lemma promote_restore_stale:
  assumes "accidental (pitch n) = None" and "savedAccidental (editorial n) = Some old"
    and "capuaFicta (editorial n) = Some (Some v)"
  shows "accidental (pitch (restoreAccidental (capuaFictaToAccidental n))) = old"
  using assms
  by (simp add: restoreAccidental_def capuaFictaToAccidental_def clearAccidental_def Let_def)

text \<open>
  On a note that carries an accidental \<open>a\<close> the round trip holds: \<^verbatim>\<open>clearAccidental\<close>
  saves \<open>a\<close>, over whatever \<^verbatim>\<open>savedAccidental\<close> held, and \<^verbatim>\<open>restoreAccidental\<close> writes
  it back.
\<close>

lemma promote_restore_with_accidental:
  assumes "accidental (pitch n) = Some a"
  shows "(capuaFicta (editorial n) = Some (Some v) \<longrightarrow>
           accidental (pitch (restoreAccidental (capuaFictaToAccidental n))) = Some a)
       \<and> (pmfcFicta (editorial n) = Some (Some w) \<longrightarrow>
           accidental (pitch (restoreAccidental (pmfcFictaToAccidental n))) = Some a)"
  using assms
  by (simp add: restoreAccidental_def capuaFictaToAccidental_def pmfcFictaToAccidental_def
        clearAccidental_def Let_def)

subsection \<open>The classifier\<close>

text \<open>
  C4. Classifier totality. \<^verbatim>\<open>getIntervalType\<close> returns \<^verbatim>\<open>None\<close> for a null interval and
  for an interval without diatonic component; for an interval whose diatonic name is P1, P5
  or P8 it returns \<^verbatim>\<open>'perfect cons'\<close>, for m3, M3, m6, M6 \<^verbatim>\<open>'imperfect cons'\<close>, for m2, M2,
  A2, d3, A3, d4, P4, A4, d5, A5, d6, A6, d7, m7, M7, A7 \<^verbatim>\<open>'dissonance'\<close>; for every other
  diatonic name it raises \<^verbatim>\<open>CapuaException\<close>.
\<close>

theorem getIntervalType_total:
  "getIntervalType None = Inr None
   \<and> getIntervalType (Some (i\<lparr>diatonic := None\<rparr>)) = Inr None
   \<and> (name d \<in> {''P1'', ''P5'', ''P8''} \<longrightarrow>
        getIntervalType (Some (i\<lparr>diatonic := Some d\<rparr>)) = Inr (Some ''perfect cons''))
   \<and> (name d \<in> {''m3'', ''M3'', ''m6'', ''M6''} \<longrightarrow>
        getIntervalType (Some (i\<lparr>diatonic := Some d\<rparr>)) = Inr (Some ''imperfect cons''))
   \<and> (name d \<in> {''m2'', ''M2'', ''A2'', ''d3'', ''A3'', ''d4'', ''P4'', ''A4'', ''d5'', ''A5'',
                  ''d6'', ''A6'', ''d7'', ''m7'', ''M7'', ''A7''} \<longrightarrow>
        getIntervalType (Some (i\<lparr>diatonic := Some d\<rparr>)) = Inr (Some ''dissonance''))
   \<and> (name d \<notin> {''P1'', ''P5'', ''P8''} \<union> {''m3'', ''M3'', ''m6'', ''M6''}
                \<union> {''m2'', ''M2'', ''A2'', ''d3'', ''A3'', ''d4'', ''P4'', ''A4'', ''d5'', ''A5'',
                  ''d6'', ''A6'', ''d7'', ''m7'', ''M7'', ''A7''} \<longrightarrow>
        getIntervalType (Some (i\<lparr>diatonic := Some d\<rparr>)) = Inl CapuaException)"
  by (auto simp add: getIntervalType_def PerfectCons_def ImperfCons_def Others_def)

theorem getIntervalType_total_witness:
  "getIntervalType (Some (namedInterval ''P5'')) = Inr (Some ''perfect cons'')
   \<and> getIntervalType (Some (namedInterval ''m6'')) = Inr (Some ''imperfect cons'')
   \<and> getIntervalType (Some (namedInterval ''d5'')) = Inr (Some ''dissonance'')
   \<and> getIntervalType (Some (namedInterval ''A1'')) = Inl CapuaException"
  using getIntervalType_total [of "namedInterval ''P5''" "\<lparr>name = ''P5'', specificName = []\<rparr>"]
        getIntervalType_total [of "namedInterval ''m6''" "\<lparr>name = ''m6'', specificName = []\<rparr>"]
        getIntervalType_total [of "namedInterval ''d5''" "\<lparr>name = ''d5'', specificName = []\<rparr>"]
        getIntervalType_total [of "namedInterval ''A1''" "\<lparr>name = ''A1'', specificName = []\<rparr>"]
  by (simp add: namedInterval_def)

subsection \<open>Per-note comparison and its sum over a stream\<close>

text \<open>
  C6. Per-note comparison. \<^verbatim>\<open>compareNoteCapuaToEditor\<close> is to count \<^verbatim>\<open>pmfcAlt\<close> on the
  notes that the editors altered, and \<^verbatim>\<open>capuaAlt\<close> with \<^verbatim>\<open>capuaNotPmfc\<close> on a note that
  only a rule altered. It tests whether the key \<^verbatim>\<open>pmfcFicta\<close> is in \<^verbatim>\<open>note1.editorial\<close>,
  and \<^verbatim>\<open>applyCapuaToStream\<close> writes that key on every note, holding \<^verbatim>\<open>None\<close> where the
  editors gave no ficta. After \<^verbatim>\<open>applyCapuaToStream\<close> on D E F G, a melody without any
  editorial ficta, the F carries \<^verbatim>\<open>pmfcFicta = None\<close> and the \<^verbatim>\<open>capuaFicta\<close> sharp of rule
  two: the comparison counts it as altered by both, and over the whole melody it counts
  four notes altered by the editors and none altered by Capua alone.
\<close>

theorem compareNoteCapuaToEditor_counts_unaltered:
  "pmfcFicta (editorial (applyCapuaToStream directedName melodyDEFG ! 2)) = Some None
   \<and> capuaFicta (editorial (applyCapuaToStream directedName melodyDEFG ! 2))
       = Some (Some (Accidental ''sharp''))
   \<and> compareNoteCapuaToEditor (applyCapuaToStream directedName melodyDEFG ! 2)
       = \<lparr>totalNotes = 1, pmfcAlt = 1, capuaAlt = 1, pmfcNotCapua = 0, capuaNotPmfc = 0,
          pmfcAndCapua = 1\<rparr>
   \<and> pmfcFicta (editorial (applyCapuaToStream directedName melodyDEFG ! 0)) = Some None
   \<and> capuaFicta (editorial (applyCapuaToStream directedName melodyDEFG ! 0)) = None
   \<and> compareNoteCapuaToEditor (applyCapuaToStream directedName melodyDEFG ! 0)
       = \<lparr>totalNotes = 1, pmfcAlt = 1, capuaAlt = 0, pmfcNotCapua = 1, capuaNotPmfc = 0,
          pmfcAndCapua = 0\<rparr>
   \<and> compareSrcStreamCapuaToEditor (applyCapuaToStream directedName melodyDEFG)
       = \<lparr>totalNotes = 4, pmfcAlt = 4, capuaAlt = 1, pmfcNotCapua = 3, capuaNotPmfc = 0,
          pmfcAndCapua = 1\<rparr>"
  by code_simp

text \<open>
  What the function computes, for every element: the zero dictionary for a rest; for a
  note, \<^verbatim>\<open>totalNotes = 1\<close> and the other entries by which of the two keys are present in
  \<^verbatim>\<open>note1.editorial\<close>, whatever they hold.
\<close>

lemma compareNoteCapuaToEditor_by_key:
  "(isRest n \<longrightarrow> compareNoteCapuaToEditor n = zeroDict)
   \<and> (\<not> isRest n \<longrightarrow> totalNotes (compareNoteCapuaToEditor n) = 1)
   \<and> (\<not> isRest n \<and> pmfcFicta (editorial n) \<noteq> None \<and> capuaFicta (editorial n) \<noteq> None \<longrightarrow>
        compareNoteCapuaToEditor n =
          \<lparr>totalNotes = 1, pmfcAlt = 1, capuaAlt = 1, pmfcNotCapua = 0, capuaNotPmfc = 0,
           pmfcAndCapua = 1\<rparr>)
   \<and> (\<not> isRest n \<and> pmfcFicta (editorial n) \<noteq> None \<and> capuaFicta (editorial n) = None \<longrightarrow>
        compareNoteCapuaToEditor n =
          \<lparr>totalNotes = 1, pmfcAlt = 1, capuaAlt = 0, pmfcNotCapua = 1, capuaNotPmfc = 0,
           pmfcAndCapua = 0\<rparr>)
   \<and> (\<not> isRest n \<and> pmfcFicta (editorial n) = None \<and> capuaFicta (editorial n) \<noteq> None \<longrightarrow>
        compareNoteCapuaToEditor n =
          \<lparr>totalNotes = 1, pmfcAlt = 0, capuaAlt = 1, pmfcNotCapua = 0, capuaNotPmfc = 1,
           pmfcAndCapua = 0\<rparr>)
   \<and> (\<not> isRest n \<and> pmfcFicta (editorial n) = None \<and> capuaFicta (editorial n) = None \<longrightarrow>
        compareNoteCapuaToEditor n =
          \<lparr>totalNotes = 1, pmfcAlt = 0, capuaAlt = 0, pmfcNotCapua = 0, capuaNotPmfc = 0,
           pmfcAndCapua = 0\<rparr>)"
  by (simp add: compareNoteCapuaToEditor_def zeroDict_def Let_def)

text \<open>
  Every note that leaves \<^verbatim>\<open>applyCapuaToStream\<close>'s first loop has the key \<^verbatim>\<open>pmfcFicta\<close>,
  so on the cleared stream no note is ever counted as altered by Capua alone.
\<close>

lemma clearedStream_pmfcFicta:
  assumes "n \<in> set (clearedStream s)" "\<not> isRest n"
  shows "pmfcFicta (editorial n) \<noteq> None"
  using assms
  by (auto simp add: clearedStream_def clearFicta_def clearAccidental_def touchFicta_def
        split: if_splits)

lemma addDict_zero: "addDict zeroDict d = d"
  by (simp add: addDict_def zeroDict_def)

lemma addDict_assoc: "addDict (addDict a b) c = addDict a (addDict b c)"
  by (simp add: addDict_def)

lemma fold_addDict:
  "fold (\<lambda>note1 totalDict. addDict totalDict (compareNoteCapuaToEditor note1)) xs acc
   = addDict acc
       (fold (\<lambda>note1 totalDict. addDict totalDict (compareNoteCapuaToEditor note1)) xs zeroDict)"
proof (induction xs arbitrary: acc)
  case Nil
  show ?case by (simp add: addDict_def zeroDict_def)
next
  case (Cons x xs)
  show ?case
    unfolding fold_simps
    by (subst Cons.IH, subst (2) Cons.IH) (simp only: addDict_assoc addDict_zero)
qed

text \<open>
  C7. Tally additivity. The dictionary that \<^verbatim>\<open>compareSrcStreamCapuaToEditor\<close> computes
  over the concatenation of two note sequences is the sum, key by key, of the dictionaries
  computed over each of them.
\<close>

theorem tally_additive:
  "compareSrcStreamCapuaToEditor (xs @ ys)
   = addDict (compareSrcStreamCapuaToEditor xs) (compareSrcStreamCapuaToEditor ys)"
  unfolding compareSrcStreamCapuaToEditor_def fold_append comp_def
  by (rule fold_addDict)

subsection \<open>The rules on a stream without accidentals\<close>

text \<open>
  The generic step: a scan whose windows are tested on rests and pitches only, and whose
  updates keep rests and pitches when no note of the stream carries an accidental, counts
  the windows of the initial stream that pass the test and adds the rule's constant once
  to each pivot.
\<close>

lemma map_upd_same: "f y = f (xs ! k) \<Longrightarrow> map f (xs[k := y]) = map f xs"
  by (cases "k < length xs") (simp_all add: map_update list_update_same_conv list_update_beyond)

lemma noAccidentals_nth:
  "noAccidentals s \<Longrightarrow> k < length s \<Longrightarrow> \<not> isRest (s ! k) \<Longrightarrow> accidental (pitch (s ! k)) = None"
  by (auto simp add: noAccidentals_def list_all_length)

lemma noAccidentals_skel:
  assumes "map skel s = map skel s'"
  shows "noAccidentals s = noAccidentals s'"
proof -
  have "noAccidentals t = list_all (\<lambda>(r, p). r \<or> accidental p = None) (map skel t)" for t
    by (simp add: noAccidentals_def list_all_iff skel_def)
  then show ?thesis using assms by simp
qed

lemma skel_nth: "map skel s = map skel s' \<Longrightarrow> k < length s \<Longrightarrow> skel (s ! k) = skel (s' ! k)"
  by (metis nth_map length_map)

lemma rule_fold:
  fixes stp :: "nat \<Rightarrow> nat \<times> stream \<Rightarrow> nat \<times> stream"
    and M :: "stream \<Rightarrow> nat \<Rightarrow> bool"
  assumes cnt: "\<And>i num s. fst (stp i (num, s)) = (if M s i then num + 1 else num)"
    and len: "\<And>i num s. length (snd (stp i (num, s))) = length s"
    and skl: "\<And>i num s. noAccidentals s \<Longrightarrow> i + w < length s \<Longrightarrow>
                 map skel (snd (stp i (num, s))) = map skel s"
    and num: "\<And>i num s j. i + w < length s \<Longrightarrow> j < length s \<Longrightarrow>
                 ruleNumber (snd (stp i (num, s)) ! j)
                 = (if M s i \<and> j = i + off then capuaRuleNumber (bumpRule r (editorial (s ! j)))
                    else ruleNumber (s ! j))"
    and Mskel: "\<And>s s' i. map skel s = map skel s' \<Longrightarrow> i + w < length s \<Longrightarrow> M s i = M s' i"
  shows "noAccidentals s \<Longrightarrow> distinct js \<Longrightarrow> (\<forall>i\<in>set js. i + w < length s) \<Longrightarrow>
         fst (fold stp js (num, s)) = num + length (filter (M s) js)
         \<and> length (snd (fold stp js (num, s))) = length s
         \<and> map skel (snd (fold stp js (num, s))) = map skel s
         \<and> (\<forall>j<length s. ruleNumber (snd (fold stp js (num, s)) ! j)
               = (if \<exists>i\<in>set js. M s i \<and> j = i + off
                  then capuaRuleNumber (bumpRule r (editorial (s ! j)))
                  else ruleNumber (s ! j)))"
proof (induction js arbitrary: num s)
  case Nil
  then show ?case by simp
next
  case (Cons i js)
  obtain num1 s1 where st: "stp i (num, s) = (num1, s1)" by (cases "stp i (num, s)")
  have iw: "i + w < length s" using Cons.prems by simp
  have n1: "num1 = (if M s i then num + 1 else num)" using cnt [of i num s] st by simp
  have l1: "length s1 = length s" using len [of i num s] st by simp
  have k1: "map skel s1 = map skel s" using skl [OF Cons.prems(1) iw, of num] st by simp
  have a1: "noAccidentals s1" using noAccidentals_skel [OF k1] Cons.prems(1) by simp
  have r1: "\<And>j. j < length s \<Longrightarrow> ruleNumber (s1 ! j)
              = (if M s i \<and> j = i + off then capuaRuleNumber (bumpRule r (editorial (s ! j)))
                 else ruleNumber (s ! j))"
    using num [OF iw, of _ num] st by simp
  have M1: "\<And>k. k \<in> set js \<Longrightarrow> M s1 k = M s k"
    using Mskel [OF k1] l1 Cons.prems(3) by simp
  have d: "distinct js" "i \<notin> set js" using Cons.prems(2) by simp_all
  have rng: "\<forall>k\<in>set js. k + w < length s1" using Cons.prems(3) l1 by simp
  note IH = Cons.IH [OF a1 d(1) rng, of num1]
  have f1: "filter (M s1) js = filter (M s) js"
    using M1 by (metis filter_cong)
  have ex1: "\<And>j. (\<exists>k\<in>set js. M s1 k \<and> j = k + off) = (\<exists>k\<in>set js. M s k \<and> j = k + off)"
    using M1 by blast
  have c1: "fst (fold stp (i # js) (num, s)) = num + length (filter (M s) (i # js))"
    using IH f1 n1 by (simp add: st)
  have c2: "length (snd (fold stp (i # js) (num, s))) = length s"
    using IH l1 by (simp add: st)
  have c3: "map skel (snd (fold stp (i # js) (num, s))) = map skel s"
    using IH k1 by (simp add: st)
  have c4: "\<forall>j<length s. ruleNumber (snd (fold stp (i # js) (num, s)) ! j)
               = (if \<exists>k\<in>set (i # js). M s k \<and> j = k + off
                  then capuaRuleNumber (bumpRule r (editorial (s ! j)))
                  else ruleNumber (s ! j))"
  proof (intro allI impI)
    fix j assume j: "j < length s"
    have e: "ruleNumber (snd (fold stp js (num1, s1)) ! j)
             = (if \<exists>k\<in>set js. M s k \<and> j = k + off
                then capuaRuleNumber (bumpRule r (editorial (s1 ! j)))
                else ruleNumber (s1 ! j))"
      using IH j l1 ex1 by simp
    show "ruleNumber (snd (fold stp (i # js) (num, s)) ! j)
               = (if \<exists>k\<in>set (i # js). M s k \<and> j = k + off
                  then capuaRuleNumber (bumpRule r (editorial (s ! j)))
                  else ruleNumber (s ! j))"
    proof (cases "\<exists>k\<in>set js. M s k \<and> j = k + off")
      case True
      then have "j \<noteq> i + off" using d(2) by auto
      then have "ruleNumber (s1 ! j) = ruleNumber (s ! j)" using r1 [OF j] by simp
      then have "capuaRuleNumber (bumpRule r (editorial (s1 ! j)))
                 = capuaRuleNumber (bumpRule r (editorial (s ! j)))"
        by (simp add: bumpRule_def ruleNumber_def)
      with e True show ?thesis by (simp add: st)
    next
      case False
      with e r1 [OF j] show ?thesis by (auto simp add: st)
    qed
  qed
  from c1 c2 c3 c4 show ?case by blast
qed

lemma ruleOne_cnt:
  "fst (capuaRuleOne_step dn i (num, s)) = (if ruleOne_match dn s i then num + 1 else num)"
  by (simp add: capuaRuleOne_step_def ruleOne_match_def Let_def)

lemma ruleOne_len: "length (snd (capuaRuleOne_step dn i (num, s))) = length s"
  by (simp add: capuaRuleOne_step_def Let_def)

lemma ruleOne_skl:
  assumes "noAccidentals s" "i + 2 < length s"
  shows "map skel (snd (capuaRuleOne_step dn i (num, s))) = map skel s"
proof -
  have "\<not> isRest (s ! (i + 1)) \<Longrightarrow> accidental (pitch (s ! (i + 1))) = None"
    using noAccidentals_nth [OF assms(1), of "i + 1"] assms(2) by simp
  then show ?thesis
    by (simp add: capuaRuleOne_step_def Let_def map_upd_same skel_def)
qed

lemma ruleOne_num:
  assumes "i + 2 < length s" "j < length s"
  shows "ruleNumber (snd (capuaRuleOne_step dn i (num, s)) ! j)
         = (if ruleOne_match dn s i \<and> j = i + 1
            then capuaRuleNumber (bumpRule RULE_ONE (editorial (s ! j)))
            else ruleNumber (s ! j))"
  using assms
  by (simp add: capuaRuleOne_step_def ruleOne_match_def Let_def nth_list_update ruleNumber_def
        bumpRule_def)

lemma ruleOne_Mskel:
  assumes "map skel s = map skel s'" "i + 2 < length s"
  shows "ruleOne_match dn s i = ruleOne_match dn s' i"
proof -
  have "skel (s ! i) = skel (s' ! i)" "skel (s ! (i + 1)) = skel (s' ! (i + 1))"
       "skel (s ! (i + 2)) = skel (s' ! (i + 2))" 
    using assms skel_nth [OF assms(1)] by simp_all
  then show ?thesis by (simp add: ruleOne_match_def skel_def)
qed

lemma ruleOne_fold:
  assumes "noAccidentals s" "distinct js" "\<forall>i\<in>set js. i + 2 < length s"
  shows "fst (fold (capuaRuleOne_step dn) js (num, s))
           = num + length (filter (ruleOne_match dn s) js)
         \<and> length (snd (fold (capuaRuleOne_step dn) js (num, s))) = length s
         \<and> map skel (snd (fold (capuaRuleOne_step dn) js (num, s))) = map skel s
         \<and> (\<forall>j<length s. ruleNumber (snd (fold (capuaRuleOne_step dn) js (num, s)) ! j)
               = (if \<exists>i\<in>set js. ruleOne_match dn s i \<and> j = i + 1
                  then capuaRuleNumber (bumpRule RULE_ONE (editorial (s ! j)))
                  else ruleNumber (s ! j)))"
proof (rule rule_fold [where w = 2, OF _ _ _ _ _ assms])
  show "\<And>i num s. fst (capuaRuleOne_step dn i (num, s))
          = (if ruleOne_match dn s i then num + 1 else num)"
    by (rule ruleOne_cnt)
  show "\<And>i num s. length (snd (capuaRuleOne_step dn i (num, s))) = length s"
    by (rule ruleOne_len)
  show "\<And>i num s. noAccidentals s \<Longrightarrow> i + 2 < length s \<Longrightarrow>
          map skel (snd (capuaRuleOne_step dn i (num, s))) = map skel s"
    by (rule ruleOne_skl)
  show "\<And>i num s j. i + 2 < length s \<Longrightarrow> j < length s \<Longrightarrow>
          ruleNumber (snd (capuaRuleOne_step dn i (num, s)) ! j)
          = (if ruleOne_match dn s i \<and> j = i + 1
             then capuaRuleNumber (bumpRule RULE_ONE (editorial (s ! j)))
             else ruleNumber (s ! j))"
    by (rule ruleOne_num)
  show "\<And>s s' i. map skel s = map skel s' \<Longrightarrow> i + 2 < length s \<Longrightarrow>
          ruleOne_match dn s i = ruleOne_match dn s' i"
    by (rule ruleOne_Mskel)
qed

text \<open>
  On a stream without accidentals, rule one counts the windows that pass its test, keeps
  every rest flag and pitch, and adds its constant to the rule number of each pivot.
\<close>

lemma capuaRuleOne_run:
  assumes "noAccidentals s"
  shows "fst (capuaRuleOne dn s) = length (filter (ruleOne_match dn s) [0 ..< length s - 2])"
    and "length (snd (capuaRuleOne dn s)) = length s"
    and "map skel (snd (capuaRuleOne dn s)) = map skel s"
    and "j < length s \<Longrightarrow> ruleNumber (snd (capuaRuleOne dn s) ! j)
           = (if ruleOne_fires dn s j
              then capuaRuleNumber (bumpRule RULE_ONE (editorial (s ! j)))
              else ruleNumber (s ! j))"
proof -
  have rng: "\<forall>i\<in>set [0 ..< length s - 2]. i + 2 < length s" by auto
  note F = ruleOne_fold [OF assms distinct_upt rng, of dn 0]
  show "fst (capuaRuleOne dn s) = length (filter (ruleOne_match dn s) [0 ..< length s - 2])"
    using F by (simp add: capuaRuleOne_def)
  show "length (snd (capuaRuleOne dn s)) = length s"
    using F by (simp add: capuaRuleOne_def)
  show "map skel (snd (capuaRuleOne dn s)) = map skel s"
    using F by (simp add: capuaRuleOne_def)
  have ex: "(\<exists>i\<in>set [0 ..< length s - 2]. ruleOne_match dn s i \<and> j = i + 1)
            = ruleOne_fires dn s j"
  proof
    assume "\<exists>i\<in>set [0 ..< length s - 2]. ruleOne_match dn s i \<and> j = i + 1"
    then obtain i where "i < length s - 2" "ruleOne_match dn s i" "j = i + 1" by auto
    then show "ruleOne_fires dn s j" by (simp add: ruleOne_fires_def)
  next
    assume f: "ruleOne_fires dn s j"
    then have "j - 1 < length s - 2" "ruleOne_match dn s (j - 1)" "j = (j - 1) + 1"
      by (auto simp add: ruleOne_fires_def)
    then show "\<exists>i\<in>set [0 ..< length s - 2]. ruleOne_match dn s i \<and> j = i + 1"
      by (metis atLeast0LessThan lessThan_iff set_upt)
  qed
  show "j < length s \<Longrightarrow> ruleNumber (snd (capuaRuleOne dn s) ! j)
           = (if ruleOne_fires dn s j
              then capuaRuleNumber (bumpRule RULE_ONE (editorial (s ! j)))
              else ruleNumber (s ! j))"
    using F ex by (simp add: capuaRuleOne_def)
qed

lemma ruleTwo_cnt:
  "fst (capuaRuleTwo_step dn i (num, s)) = (if ruleTwo_match dn s i then num + 1 else num)"
  by (simp add: capuaRuleTwo_step_def ruleTwo_match_def Let_def)

lemma ruleTwo_len: "length (snd (capuaRuleTwo_step dn i (num, s))) = length s"
  by (simp add: capuaRuleTwo_step_def Let_def)

lemma ruleTwo_skl:
  assumes "noAccidentals s" "i + 3 < length s"
  shows "map skel (snd (capuaRuleTwo_step dn i (num, s))) = map skel s"
proof -
  have "\<not> isRest (s ! (i + 2)) \<Longrightarrow> accidental (pitch (s ! (i + 2))) = None"
    using noAccidentals_nth [OF assms(1), of "i + 2"] assms(2) by simp
  then show ?thesis
    by (simp add: capuaRuleTwo_step_def Let_def map_upd_same skel_def)
qed

lemma ruleTwo_num:
  assumes "i + 3 < length s" "j < length s"
  shows "ruleNumber (snd (capuaRuleTwo_step dn i (num, s)) ! j)
         = (if ruleTwo_match dn s i \<and> j = i + 2
            then capuaRuleNumber (bumpRule RULE_TWO (editorial (s ! j)))
            else ruleNumber (s ! j))"
  using assms
  by (simp add: capuaRuleTwo_step_def ruleTwo_match_def Let_def nth_list_update ruleNumber_def
        bumpRule_def)

lemma ruleTwo_Mskel:
  assumes "map skel s = map skel s'" "i + 3 < length s"
  shows "ruleTwo_match dn s i = ruleTwo_match dn s' i"
proof -
  have "skel (s ! i) = skel (s' ! i)" "skel (s ! (i + 1)) = skel (s' ! (i + 1))"
       "skel (s ! (i + 2)) = skel (s' ! (i + 2))" "skel (s ! (i + 3)) = skel (s' ! (i + 3))"
    using assms skel_nth [OF assms(1)] by simp_all
  then show ?thesis by (simp add: ruleTwo_match_def skel_def)
qed

lemma ruleTwo_fold:
  assumes "noAccidentals s" "distinct js" "\<forall>i\<in>set js. i + 3 < length s"
  shows "fst (fold (capuaRuleTwo_step dn) js (num, s))
           = num + length (filter (ruleTwo_match dn s) js)
         \<and> length (snd (fold (capuaRuleTwo_step dn) js (num, s))) = length s
         \<and> map skel (snd (fold (capuaRuleTwo_step dn) js (num, s))) = map skel s
         \<and> (\<forall>j<length s. ruleNumber (snd (fold (capuaRuleTwo_step dn) js (num, s)) ! j)
               = (if \<exists>i\<in>set js. ruleTwo_match dn s i \<and> j = i + 2
                  then capuaRuleNumber (bumpRule RULE_TWO (editorial (s ! j)))
                  else ruleNumber (s ! j)))"
proof (rule rule_fold [where w = 3, OF _ _ _ _ _ assms])
  show "\<And>i num s. fst (capuaRuleTwo_step dn i (num, s))
          = (if ruleTwo_match dn s i then num + 1 else num)"
    by (rule ruleTwo_cnt)
  show "\<And>i num s. length (snd (capuaRuleTwo_step dn i (num, s))) = length s"
    by (rule ruleTwo_len)
  show "\<And>i num s. noAccidentals s \<Longrightarrow> i + 3 < length s \<Longrightarrow>
          map skel (snd (capuaRuleTwo_step dn i (num, s))) = map skel s"
    by (rule ruleTwo_skl)
  show "\<And>i num s j. i + 3 < length s \<Longrightarrow> j < length s \<Longrightarrow>
          ruleNumber (snd (capuaRuleTwo_step dn i (num, s)) ! j)
          = (if ruleTwo_match dn s i \<and> j = i + 2
             then capuaRuleNumber (bumpRule RULE_TWO (editorial (s ! j)))
             else ruleNumber (s ! j))"
    by (rule ruleTwo_num)
  show "\<And>s s' i. map skel s = map skel s' \<Longrightarrow> i + 3 < length s \<Longrightarrow>
          ruleTwo_match dn s i = ruleTwo_match dn s' i"
    by (rule ruleTwo_Mskel)
qed

text \<open>
  On a stream without accidentals, rule two counts the windows that pass its test, keeps
  every rest flag and pitch, and adds its constant to the rule number of each pivot.
\<close>

lemma capuaRuleTwo_run:
  assumes "noAccidentals s"
  shows "fst (capuaRuleTwo dn s) = length (filter (ruleTwo_match dn s) [0 ..< length s - 3])"
    and "length (snd (capuaRuleTwo dn s)) = length s"
    and "map skel (snd (capuaRuleTwo dn s)) = map skel s"
    and "j < length s \<Longrightarrow> ruleNumber (snd (capuaRuleTwo dn s) ! j)
           = (if ruleTwo_fires dn s j
              then capuaRuleNumber (bumpRule RULE_TWO (editorial (s ! j)))
              else ruleNumber (s ! j))"
proof -
  have rng: "\<forall>i\<in>set [0 ..< length s - 3]. i + 3 < length s" by auto
  note F = ruleTwo_fold [OF assms distinct_upt rng, of dn 0]
  show "fst (capuaRuleTwo dn s) = length (filter (ruleTwo_match dn s) [0 ..< length s - 3])"
    using F by (simp add: capuaRuleTwo_def)
  show "length (snd (capuaRuleTwo dn s)) = length s"
    using F by (simp add: capuaRuleTwo_def)
  show "map skel (snd (capuaRuleTwo dn s)) = map skel s"
    using F by (simp add: capuaRuleTwo_def)
  have ex: "(\<exists>i\<in>set [0 ..< length s - 3]. ruleTwo_match dn s i \<and> j = i + 2)
            = ruleTwo_fires dn s j"
  proof
    assume "\<exists>i\<in>set [0 ..< length s - 3]. ruleTwo_match dn s i \<and> j = i + 2"
    then obtain i where "i < length s - 3" "ruleTwo_match dn s i" "j = i + 2" by auto
    then show "ruleTwo_fires dn s j" by (simp add: ruleTwo_fires_def)
  next
    assume f: "ruleTwo_fires dn s j"
    then have "j - 2 < length s - 3" "ruleTwo_match dn s (j - 2)" "j = (j - 2) + 2"
      by (auto simp add: ruleTwo_fires_def)
    then show "\<exists>i\<in>set [0 ..< length s - 3]. ruleTwo_match dn s i \<and> j = i + 2"
      by (metis atLeast0LessThan lessThan_iff set_upt)
  qed
  show "j < length s \<Longrightarrow> ruleNumber (snd (capuaRuleTwo dn s) ! j)
           = (if ruleTwo_fires dn s j
              then capuaRuleNumber (bumpRule RULE_TWO (editorial (s ! j)))
              else ruleNumber (s ! j))"
    using F ex by (simp add: capuaRuleTwo_def)
qed

lemma ruleThree_cnt:
  "fst (capuaRuleThree_step dn i (num, s)) = (if ruleThree_match dn s i then num + 1 else num)"
  by (simp add: capuaRuleThree_step_def ruleThree_match_def Let_def)

lemma ruleThree_len: "length (snd (capuaRuleThree_step dn i (num, s))) = length s"
  by (simp add: capuaRuleThree_step_def Let_def)

lemma ruleThree_skl:
  assumes "noAccidentals s" "i + 2 < length s"
  shows "map skel (snd (capuaRuleThree_step dn i (num, s))) = map skel s"
proof -
  have "\<not> isRest (s ! (i + 1)) \<Longrightarrow> accidental (pitch (s ! (i + 1))) = None"
    using noAccidentals_nth [OF assms(1), of "i + 1"] assms(2) by simp
  then show ?thesis
    by (simp add: capuaRuleThree_step_def Let_def map_upd_same skel_def)
qed

lemma ruleThree_num:
  assumes "i + 2 < length s" "j < length s"
  shows "ruleNumber (snd (capuaRuleThree_step dn i (num, s)) ! j)
         = (if ruleThree_match dn s i \<and> j = i + 1
            then capuaRuleNumber (bumpRule RULE_THREE (editorial (s ! j)))
            else ruleNumber (s ! j))"
  using assms
  by (simp add: capuaRuleThree_step_def ruleThree_match_def Let_def nth_list_update ruleNumber_def
        bumpRule_def)

lemma ruleThree_Mskel:
  assumes "map skel s = map skel s'" "i + 2 < length s"
  shows "ruleThree_match dn s i = ruleThree_match dn s' i"
proof -
  have "skel (s ! i) = skel (s' ! i)" "skel (s ! (i + 1)) = skel (s' ! (i + 1))"
       "skel (s ! (i + 2)) = skel (s' ! (i + 2))" 
    using assms skel_nth [OF assms(1)] by simp_all
  then show ?thesis by (simp add: ruleThree_match_def skel_def)
qed

lemma ruleThree_fold:
  assumes "noAccidentals s" "distinct js" "\<forall>i\<in>set js. i + 2 < length s"
  shows "fst (fold (capuaRuleThree_step dn) js (num, s))
           = num + length (filter (ruleThree_match dn s) js)
         \<and> length (snd (fold (capuaRuleThree_step dn) js (num, s))) = length s
         \<and> map skel (snd (fold (capuaRuleThree_step dn) js (num, s))) = map skel s
         \<and> (\<forall>j<length s. ruleNumber (snd (fold (capuaRuleThree_step dn) js (num, s)) ! j)
               = (if \<exists>i\<in>set js. ruleThree_match dn s i \<and> j = i + 1
                  then capuaRuleNumber (bumpRule RULE_THREE (editorial (s ! j)))
                  else ruleNumber (s ! j)))"
proof (rule rule_fold [where w = 2, OF _ _ _ _ _ assms])
  show "\<And>i num s. fst (capuaRuleThree_step dn i (num, s))
          = (if ruleThree_match dn s i then num + 1 else num)"
    by (rule ruleThree_cnt)
  show "\<And>i num s. length (snd (capuaRuleThree_step dn i (num, s))) = length s"
    by (rule ruleThree_len)
  show "\<And>i num s. noAccidentals s \<Longrightarrow> i + 2 < length s \<Longrightarrow>
          map skel (snd (capuaRuleThree_step dn i (num, s))) = map skel s"
    by (rule ruleThree_skl)
  show "\<And>i num s j. i + 2 < length s \<Longrightarrow> j < length s \<Longrightarrow>
          ruleNumber (snd (capuaRuleThree_step dn i (num, s)) ! j)
          = (if ruleThree_match dn s i \<and> j = i + 1
             then capuaRuleNumber (bumpRule RULE_THREE (editorial (s ! j)))
             else ruleNumber (s ! j))"
    by (rule ruleThree_num)
  show "\<And>s s' i. map skel s = map skel s' \<Longrightarrow> i + 2 < length s \<Longrightarrow>
          ruleThree_match dn s i = ruleThree_match dn s' i"
    by (rule ruleThree_Mskel)
qed

text \<open>
  On a stream without accidentals, rule three counts the windows that pass its test, keeps
  every rest flag and pitch, and adds its constant to the rule number of each pivot.
\<close>

lemma capuaRuleThree_run:
  assumes "noAccidentals s"
  shows "fst (capuaRuleThree dn s) = length (filter (ruleThree_match dn s) [0 ..< length s - 2])"
    and "length (snd (capuaRuleThree dn s)) = length s"
    and "map skel (snd (capuaRuleThree dn s)) = map skel s"
    and "j < length s \<Longrightarrow> ruleNumber (snd (capuaRuleThree dn s) ! j)
           = (if ruleThree_fires dn s j
              then capuaRuleNumber (bumpRule RULE_THREE (editorial (s ! j)))
              else ruleNumber (s ! j))"
proof -
  have rng: "\<forall>i\<in>set [0 ..< length s - 2]. i + 2 < length s" by auto
  note F = ruleThree_fold [OF assms distinct_upt rng, of dn 0]
  show "fst (capuaRuleThree dn s) = length (filter (ruleThree_match dn s) [0 ..< length s - 2])"
    using F by (simp add: capuaRuleThree_def)
  show "length (snd (capuaRuleThree dn s)) = length s"
    using F by (simp add: capuaRuleThree_def)
  show "map skel (snd (capuaRuleThree dn s)) = map skel s"
    using F by (simp add: capuaRuleThree_def)
  have ex: "(\<exists>i\<in>set [0 ..< length s - 2]. ruleThree_match dn s i \<and> j = i + 1)
            = ruleThree_fires dn s j"
  proof
    assume "\<exists>i\<in>set [0 ..< length s - 2]. ruleThree_match dn s i \<and> j = i + 1"
    then obtain i where "i < length s - 2" "ruleThree_match dn s i" "j = i + 1" by auto
    then show "ruleThree_fires dn s j" by (simp add: ruleThree_fires_def)
  next
    assume f: "ruleThree_fires dn s j"
    then have "j - 1 < length s - 2" "ruleThree_match dn s (j - 1)" "j = (j - 1) + 1"
      by (auto simp add: ruleThree_fires_def)
    then show "\<exists>i\<in>set [0 ..< length s - 2]. ruleThree_match dn s i \<and> j = i + 1"
      by (metis atLeast0LessThan lessThan_iff set_upt)
  qed
  show "j < length s \<Longrightarrow> ruleNumber (snd (capuaRuleThree dn s) ! j)
           = (if ruleThree_fires dn s j
              then capuaRuleNumber (bumpRule RULE_THREE (editorial (s ! j)))
              else ruleNumber (s ! j))"
    using F ex by (simp add: capuaRuleThree_def)
qed

lemma ruleFourB_cnt:
  "fst (capuaRuleFourB_step dn i (num, s)) = (if ruleFourB_match dn s i then num + 1 else num)"
  by (simp add: capuaRuleFourB_step_def ruleFourB_match_def Let_def)

lemma ruleFourB_len: "length (snd (capuaRuleFourB_step dn i (num, s))) = length s"
  by (simp add: capuaRuleFourB_step_def Let_def)

lemma ruleFourB_skl:
  assumes "noAccidentals s" "i + 2 < length s"
  shows "map skel (snd (capuaRuleFourB_step dn i (num, s))) = map skel s"
proof -
  have "\<not> isRest (s ! (i + 1)) \<Longrightarrow> accidental (pitch (s ! (i + 1))) = None"
    using noAccidentals_nth [OF assms(1), of "i + 1"] assms(2) by simp
  then show ?thesis
    by (simp add: capuaRuleFourB_step_def Let_def map_upd_same skel_def)
qed

lemma ruleFourB_num:
  assumes "i + 2 < length s" "j < length s"
  shows "ruleNumber (snd (capuaRuleFourB_step dn i (num, s)) ! j)
         = (if ruleFourB_match dn s i \<and> j = i + 1
            then capuaRuleNumber (bumpRule RULE_FOUR_B (editorial (s ! j)))
            else ruleNumber (s ! j))"
  using assms
  by (simp add: capuaRuleFourB_step_def ruleFourB_match_def Let_def nth_list_update ruleNumber_def
        bumpRule_def)

lemma ruleFourB_Mskel:
  assumes "map skel s = map skel s'" "i + 2 < length s"
  shows "ruleFourB_match dn s i = ruleFourB_match dn s' i"
proof -
  have "skel (s ! i) = skel (s' ! i)" "skel (s ! (i + 1)) = skel (s' ! (i + 1))"
       "skel (s ! (i + 2)) = skel (s' ! (i + 2))" 
    using assms skel_nth [OF assms(1)] by simp_all
  then show ?thesis by (simp add: ruleFourB_match_def skel_def)
qed

lemma ruleFourB_fold:
  assumes "noAccidentals s" "distinct js" "\<forall>i\<in>set js. i + 2 < length s"
  shows "fst (fold (capuaRuleFourB_step dn) js (num, s))
           = num + length (filter (ruleFourB_match dn s) js)
         \<and> length (snd (fold (capuaRuleFourB_step dn) js (num, s))) = length s
         \<and> map skel (snd (fold (capuaRuleFourB_step dn) js (num, s))) = map skel s
         \<and> (\<forall>j<length s. ruleNumber (snd (fold (capuaRuleFourB_step dn) js (num, s)) ! j)
               = (if \<exists>i\<in>set js. ruleFourB_match dn s i \<and> j = i + 1
                  then capuaRuleNumber (bumpRule RULE_FOUR_B (editorial (s ! j)))
                  else ruleNumber (s ! j)))"
proof (rule rule_fold [where w = 2, OF _ _ _ _ _ assms])
  show "\<And>i num s. fst (capuaRuleFourB_step dn i (num, s))
          = (if ruleFourB_match dn s i then num + 1 else num)"
    by (rule ruleFourB_cnt)
  show "\<And>i num s. length (snd (capuaRuleFourB_step dn i (num, s))) = length s"
    by (rule ruleFourB_len)
  show "\<And>i num s. noAccidentals s \<Longrightarrow> i + 2 < length s \<Longrightarrow>
          map skel (snd (capuaRuleFourB_step dn i (num, s))) = map skel s"
    by (rule ruleFourB_skl)
  show "\<And>i num s j. i + 2 < length s \<Longrightarrow> j < length s \<Longrightarrow>
          ruleNumber (snd (capuaRuleFourB_step dn i (num, s)) ! j)
          = (if ruleFourB_match dn s i \<and> j = i + 1
             then capuaRuleNumber (bumpRule RULE_FOUR_B (editorial (s ! j)))
             else ruleNumber (s ! j))"
    by (rule ruleFourB_num)
  show "\<And>s s' i. map skel s = map skel s' \<Longrightarrow> i + 2 < length s \<Longrightarrow>
          ruleFourB_match dn s i = ruleFourB_match dn s' i"
    by (rule ruleFourB_Mskel)
qed

text \<open>
  On a stream without accidentals, rule four B counts the windows that pass its test, keeps
  every rest flag and pitch, and adds its constant to the rule number of each pivot.
\<close>

lemma capuaRuleFourB_run:
  assumes "noAccidentals s"
  shows "fst (capuaRuleFourB dn s) = length (filter (ruleFourB_match dn s) [0 ..< length s - 2])"
    and "length (snd (capuaRuleFourB dn s)) = length s"
    and "map skel (snd (capuaRuleFourB dn s)) = map skel s"
    and "j < length s \<Longrightarrow> ruleNumber (snd (capuaRuleFourB dn s) ! j)
           = (if ruleFourB_fires dn s j
              then capuaRuleNumber (bumpRule RULE_FOUR_B (editorial (s ! j)))
              else ruleNumber (s ! j))"
proof -
  have rng: "\<forall>i\<in>set [0 ..< length s - 2]. i + 2 < length s" by auto
  note F = ruleFourB_fold [OF assms distinct_upt rng, of dn 0]
  show "fst (capuaRuleFourB dn s) = length (filter (ruleFourB_match dn s) [0 ..< length s - 2])"
    using F by (simp add: capuaRuleFourB_def)
  show "length (snd (capuaRuleFourB dn s)) = length s"
    using F by (simp add: capuaRuleFourB_def)
  show "map skel (snd (capuaRuleFourB dn s)) = map skel s"
    using F by (simp add: capuaRuleFourB_def)
  have ex: "(\<exists>i\<in>set [0 ..< length s - 2]. ruleFourB_match dn s i \<and> j = i + 1)
            = ruleFourB_fires dn s j"
  proof
    assume "\<exists>i\<in>set [0 ..< length s - 2]. ruleFourB_match dn s i \<and> j = i + 1"
    then obtain i where "i < length s - 2" "ruleFourB_match dn s i" "j = i + 1" by auto
    then show "ruleFourB_fires dn s j" by (simp add: ruleFourB_fires_def)
  next
    assume f: "ruleFourB_fires dn s j"
    then have "j - 1 < length s - 2" "ruleFourB_match dn s (j - 1)" "j = (j - 1) + 1"
      by (auto simp add: ruleFourB_fires_def)
    then show "\<exists>i\<in>set [0 ..< length s - 2]. ruleFourB_match dn s i \<and> j = i + 1"
      by (metis atLeast0LessThan lessThan_iff set_upt)
  qed
  show "j < length s \<Longrightarrow> ruleNumber (snd (capuaRuleFourB dn s) ! j)
           = (if ruleFourB_fires dn s j
              then capuaRuleNumber (bumpRule RULE_FOUR_B (editorial (s ! j)))
              else ruleNumber (s ! j))"
    using F ex by (simp add: capuaRuleFourB_def)
qed

subsection \<open>The default pipeline\<close>

lemma clearedStream_length: "length (clearedStream s) = length s"
  by (simp add: clearedStream_def clearFicta_def)

lemma clearedStream_noAccidentals: "noAccidentals (clearedStream s)"
  unfolding noAccidentals_def clearedStream_def clearFicta_def
  by (induction s) (simp_all add: clearAccidental_def)

lemma clearedStream_ruleNumber:
  "j < length s \<Longrightarrow> ruleNumber (clearedStream s ! j) = ruleNumber (s ! j)"
  by (simp add: clearedStream_def clearFicta_def ruleNumber_def clearAccidental_def
        touchFicta_def)

lemma fires_skel:
  assumes "map skel s = map skel s'"
  shows "ruleOne_fires dn s j = ruleOne_fires dn s' j"
    and "ruleTwo_fires dn s j = ruleTwo_fires dn s' j"
    and "ruleThree_fires dn s j = ruleThree_fires dn s' j"
    and "ruleFourB_fires dn s j = ruleFourB_fires dn s' j"
proof -
  have l: "length s = length s'" using assms by (metis length_map)
  show "ruleOne_fires dn s j = ruleOne_fires dn s' j"
    using ruleOne_Mskel [OF assms, of "j - 1" dn] l by (auto simp add: ruleOne_fires_def)
  show "ruleTwo_fires dn s j = ruleTwo_fires dn s' j"
    using ruleTwo_Mskel [OF assms, of "j - 2" dn] l by (auto simp add: ruleTwo_fires_def)
  show "ruleThree_fires dn s j = ruleThree_fires dn s' j"
    using ruleThree_Mskel [OF assms, of "j - 1" dn] l by (auto simp add: ruleThree_fires_def)
  show "ruleFourB_fires dn s j = ruleFourB_fires dn s' j"
    using ruleFourB_Mskel [OF assms, of "j - 1" dn] l by (auto simp add: ruleFourB_fires_def)
qed

lemma match_filter_skel:
  assumes "map skel s = map skel s'"
  shows "filter (ruleTwo_match dn s) [0 ..< length s - 3] = filter (ruleTwo_match dn s') [0 ..< length s' - 3]"
    and "filter (ruleThree_match dn s) [0 ..< length s - 2] = filter (ruleThree_match dn s') [0 ..< length s' - 2]"
    and "filter (ruleFourB_match dn s) [0 ..< length s - 2] = filter (ruleFourB_match dn s') [0 ..< length s' - 2]"
proof -
  have l: "length s = length s'" using assms by (metis length_map)
  show "filter (ruleTwo_match dn s) [0 ..< length s - 3] = filter (ruleTwo_match dn s') [0 ..< length s' - 3]"
    unfolding l [symmetric] by (rule filter_cong [OF refl]) (use ruleTwo_Mskel [OF assms] in auto)
  show "filter (ruleThree_match dn s) [0 ..< length s - 2] = filter (ruleThree_match dn s') [0 ..< length s' - 2]"
    unfolding l [symmetric] by (rule filter_cong [OF refl]) (use ruleThree_Mskel [OF assms] in auto)
  show "filter (ruleFourB_match dn s) [0 ..< length s - 2] = filter (ruleFourB_match dn s') [0 ..< length s' - 2]"
    unfolding l [symmetric] by (rule filter_cong [OF refl]) (use ruleFourB_Mskel [OF assms] in auto)
qed

text \<open>The four streams of the pipeline have the rests and pitches of the cleared stream.\<close>

lemma pipeline_skel:
  assumes s0_def: "s0 = clearedStream s"
    and s1_def: "s1 = snd (capuaRuleOne dn s0)"
    and s2_def: "s2 = snd (capuaRuleTwo dn s1)"
    and s3_def: "s3 = snd (capuaRuleThree dn s2)"
  shows "map skel s1 = map skel s0 \<and> map skel s2 = map skel s0 \<and> map skel s3 = map skel s0"
    and "noAccidentals s0 \<and> noAccidentals s1 \<and> noAccidentals s2 \<and> noAccidentals s3"
proof -
  have a0: "noAccidentals s0" unfolding s0_def by (rule clearedStream_noAccidentals)
  have k1: "map skel s1 = map skel s0" unfolding s1_def by (rule capuaRuleOne_run(3) [OF a0])
  have a1: "noAccidentals s1" using noAccidentals_skel [OF k1] a0 by simp
  have k2: "map skel s2 = map skel s0"
    unfolding s2_def using capuaRuleTwo_run(3) [OF a1, of dn] k1 by simp
  have a2: "noAccidentals s2" using noAccidentals_skel [OF k2] a0 by simp
  have k3: "map skel s3 = map skel s0"
    unfolding s3_def using capuaRuleThree_run(3) [OF a2, of dn] k2 by simp
  have a3: "noAccidentals s3" using noAccidentals_skel [OF k3] a0 by simp
  show "map skel s1 = map skel s0 \<and> map skel s2 = map skel s0 \<and> map skel s3 = map skel s0"
    using k1 k2 k3 by simp
  show "noAccidentals s0 \<and> noAccidentals s1 \<and> noAccidentals s2 \<and> noAccidentals s3"
    using a0 a1 a2 a3 by simp
qed

subsection \<open>Rule order on streams that carry flats\<close>

lemma follows_refl: "follows dn two a a"
  by (simp add: follows_def)

lemma follows_two: "follows dn False a b \<Longrightarrow> follows dn two a b"
  by (auto simp add: follows_def)

lemma clean_skel: "skel n = skel n' \<Longrightarrow> clean n = clean n'"
  by (simp add: clean_def skel_def)

lemma settled_preserved:
  assumes l: "length b' = length b"
    and e: "\<forall>q<length b. skel (b' ! q) = skel (b ! q) \<or> \<not> clean (b ! q)"
  shows "settled1 dn b j \<Longrightarrow> settled1 dn b' j" and "settled2 dn b j \<Longrightarrow> settled2 dn b' j"
proof -
  have k: "clean (b ! q) \<Longrightarrow> q < length b \<Longrightarrow> clean (b' ! q) \<and> pitch (b' ! q) = pitch (b ! q)" for q
    using e by (auto simp add: clean_def skel_def)
  show "settled1 dn b j \<Longrightarrow> settled1 dn b' j"
    using k [of "j - 1"] k [of j] k [of "j + 1"] l by (auto simp add: settled1_def)
  show "settled2 dn b j \<Longrightarrow> settled2 dn b' j"
    using k [of "j - 2"] k [of "j - 1"] k [of j] k [of "j + 1"] l by (auto simp add: settled2_def)
qed

lemma follows_skel:
  assumes "map skel a = map skel a'" "map skel b = map skel b'"
  shows "follows dn two a b \<Longrightarrow> follows dn two a' b'"
proof -
  assume f: "follows dn two a b"
  have la: "length a' = length a" and lb: "length b' = length b"
    using assms by (metis length_map)+
  have ea: "\<And>q. q < length a \<Longrightarrow> skel (a' ! q) = skel (a ! q)"
    using skel_nth [OF assms(1)] by simp
  have eb: "\<And>q. q < length b \<Longrightarrow> skel (b' ! q) = skel (b ! q)"
    using skel_nth [OF assms(2)] by simp
  have s: "\<And>j. settled1 dn b j \<Longrightarrow> settled1 dn b' j" "\<And>j. settled2 dn b j \<Longrightarrow> settled2 dn b' j"
    using settled_preserved [OF lb, of dn] eb by blast+
  have fl: "\<And>q. q < length a \<Longrightarrow> isFlat (a' ! q) = isFlat (a ! q) \<and> pitch (a' ! q) = pitch (a ! q)"
    using ea by (simp add: isFlat_def skel_def)
  show ?thesis
    unfolding follows_def
  proof (intro conjI allI impI)
    show "length b' = length a'" using f la lb by (simp add: follows_def)
    fix j assume "j < length a'"
    then have j: "j < length a" "j < length b" using la f by (simp_all add: follows_def)
    from f j have "skel (b ! j) = skel (a ! j)
            \<or> (isFlat (a ! j) \<and> skel (b ! j) = (False, naturalised (pitch (a ! j)))
                \<and> (settled1 dn b j \<or> two \<and> settled2 dn b j))"
      by (simp add: follows_def)
    then show "skel (b' ! j) = skel (a' ! j)
            \<or> (isFlat (a' ! j) \<and> skel (b' ! j) = (False, naturalised (pitch (a' ! j)))
                \<and> (settled1 dn b' j \<or> two \<and> settled2 dn b' j))"
      using ea [OF j(1)] eb [OF j(2)] fl [OF j(1)] s by auto
  qed
qed

text \<open>A settled position blocks every window of a later rule that contains it.\<close>

lemma settled_blocks_three:
  assumes "settled1 dn b j \<or> settled2 dn b j" "i \<le> j" "j \<le> i + 2"
  shows "\<not> ruleThree_match dn b i" and "\<not> ruleFourB_match dn b i"
proof -
  from assms(2,3) have c: "j = i \<or> j = i + 1 \<or> j = i + 2" by auto
  show "\<not> ruleThree_match dn b i"
    using assms(1) c by (auto simp add: ruleThree_match_def settled1_def settled2_def)
  show "\<not> ruleFourB_match dn b i"
    using assms(1) c by (auto simp add: ruleFourB_match_def settled1_def settled2_def)
qed

lemma settled_blocks_two:
  assumes "settled1 dn b j" "i \<le> j" "j \<le> i + 3"
  shows "\<not> ruleTwo_match dn b i"
proof -
  from assms(2,3) have c: "j = i \<or> j = i + 1 \<or> j = i + 2 \<or> j = i + 3" by auto
  show ?thesis
    using assms(1) c by (auto simp add: ruleTwo_match_def settled1_def)
qed


text \<open>What a step does to rests and pitches, flats included.\<close>

lemma nth_update3:
  fixes xs :: "'a list"
  assumes "i + 2 < length xs" "q < length xs"
  shows "(xs[i := a, Suc i := b, Suc (Suc i) := c]) ! q
         = (if q = Suc (Suc i) then c else if q = Suc i then b else if q = i then a else xs ! q)"
  using assms by (simp add: nth_list_update)

lemma nth_update4:
  fixes xs :: "'a list"
  assumes "i + 3 < length xs" "q < length xs"
  shows "(xs[i := a, Suc i := b, Suc (Suc i) := c, i + 3 := d]) ! q
         = (if q = i + 3 then d else if q = Suc (Suc i) then c
            else if q = Suc i then b else if q = i then a else xs ! q)"
  using assms by (simp add: nth_list_update)

lemma ruleOne_step_skel:
  assumes "i + 2 < length s" "q < length s"
  shows "skel (snd (capuaRuleOne_step dn i (n, s)) ! q)
         = (if ruleOne_match dn s i \<and> q = i + 1 \<and> isFlat (s ! q)
            then (False, naturalised (pitch (s ! q))) else skel (s ! q))"
  using assms
  by (simp add: capuaRuleOne_step_def ruleOne_match_def Let_def nth_update3 skel_def isFlat_def
        naturalised_def del: list_update.simps)

lemma ruleTwo_step_skel:
  assumes "i + 3 < length s" "q < length s"
  shows "skel (snd (capuaRuleTwo_step dn i (n, s)) ! q)
         = (if ruleTwo_match dn s i \<and> q = i + 2 \<and> isFlat (s ! q)
            then (False, naturalised (pitch (s ! q))) else skel (s ! q))"
  using assms
  by (simp add: capuaRuleTwo_step_def ruleTwo_match_def Let_def nth_update4 skel_def isFlat_def
        naturalised_def del: list_update.simps)

lemma ruleThree_step_skel:
  assumes "i + 2 < length s" "q < length s"
  shows "skel (snd (capuaRuleThree_step dn i (n, s)) ! q) = skel (s ! q)"
  using assms
  by (simp add: capuaRuleThree_step_def Let_def nth_update3 skel_def del: list_update.simps)

lemma ruleFourB_step_skel:
  assumes "i + 2 < length s" "q < length s"
  shows "skel (snd (capuaRuleFourB_step dn i (n, s)) ! q)
         = (if ruleFourB_match dn s i \<and> q = i + 1 \<and> isFlat (s ! q)
            then (False, naturalised (pitch (s ! q))) else skel (s ! q))"
  using assms
  by (simp add: capuaRuleFourB_step_def ruleFourB_match_def Let_def nth_update3 skel_def
        isFlat_def naturalised_def del: list_update.simps)

text \<open>A rule's test reads the rests and pitches of its window only.\<close>

lemma match_window:
  assumes "\<forall>q. i \<le> q \<and> q \<le> i + 3 \<longrightarrow> skel (s ! q) = skel (t ! q)"
  shows "ruleTwo_match dn s i = ruleTwo_match dn t i"
proof -
  have "skel (s ! i) = skel (t ! i)" "skel (s ! (i + 1)) = skel (t ! (i + 1))"
    "skel (s ! (i + 2)) = skel (t ! (i + 2))" "skel (s ! (i + 3)) = skel (t ! (i + 3))"
    using assms by simp_all
  then show ?thesis by (simp add: ruleTwo_match_def skel_def)
qed

lemma match_window3:
  assumes "\<forall>q. i \<le> q \<and> q \<le> i + 2 \<longrightarrow> skel (s ! q) = skel (t ! q)"
  shows "ruleThree_match dn s i = ruleThree_match dn t i"
    and "ruleFourB_match dn s i = ruleFourB_match dn t i"
proof -
  have e: "skel (s ! i) = skel (t ! i)" "skel (s ! (i + 1)) = skel (t ! (i + 1))"
    "skel (s ! (i + 2)) = skel (t ! (i + 2))"
    using assms by simp_all
  show "ruleThree_match dn s i = ruleThree_match dn t i"
    using e by (simp add: ruleThree_match_def skel_def)
  show "ruleFourB_match dn s i = ruleFourB_match dn t i"
    using e by (simp add: ruleFourB_match_def skel_def)
qed

text \<open>
  In the stream that still has the flat, the window fails as well: on the accidental of an
  outer note, or, with the flat note as pivot, on the interval that leads to it.
\<close>

lemma follows_left:
  assumes f: "follows dn two a b" and j: "j < length a" "0 < j"
    and d: "skel (b ! j) \<noteq> skel (a ! j)"
  shows "skel (b ! (j - 1)) = skel (a ! (j - 1))"
proof (rule ccontr)
  assume n: "skel (b ! (j - 1)) \<noteq> skel (a ! (j - 1))"
  have sj: "settled1 dn b j \<or> settled2 dn b j"
    using f j(1) d by (auto simp add: follows_def)
  have "j - 1 < length a" using j by simp
  then have sp: "settled1 dn b (j - 1) \<or> settled2 dn b (j - 1)"
    using f n by (auto simp add: follows_def)
  from sp j(2) have "dn (pitch (b ! (j - 1))) (pitch (b ! j)) = ''m2''"
    by (auto simp add: settled1_def settled2_def)
  moreover from sj have "dn (pitch (b ! (j - 1))) (pitch (b ! j)) = ''m-2''
      \<or> dn (pitch (b ! (j - 1))) (pitch (b ! j)) = ''M2''"
    by (auto simp add: settled1_def settled2_def)
  ultimately show False by auto
qed

lemma differs_facts:
  assumes f: "follows dn two a b" and j: "j < length a"
    and d: "skel (b ! j) \<noteq> skel (a ! j)"
  shows "isFlat (a ! j)" and "pitch (b ! j) = naturalised (pitch (a ! j))"
    and "0 < j" and "pitch (b ! (j - 1)) = pitch (a ! (j - 1))"
    and "dn (pitch (b ! (j - 1))) (pitch (b ! j)) = ''m-2'' \<or> two \<and> dn (pitch (b ! (j - 1))) (pitch (b ! j)) = ''M2''"
proof -
  have c: "isFlat (a ! j) \<and> skel (b ! j) = (False, naturalised (pitch (a ! j)))
         \<and> (settled1 dn b j \<or> two \<and> settled2 dn b j)"
    using f j d by (auto simp add: follows_def)
  show "isFlat (a ! j)" using c by simp
  show "pitch (b ! j) = naturalised (pitch (a ! j))" using c by (simp add: skel_def)
  show p: "0 < j" using c by (auto simp add: settled1_def settled2_def)
  show "pitch (b ! (j - 1)) = pitch (a ! (j - 1))"
    using follows_left [OF f j p d] by (simp add: skel_def)
  show "dn (pitch (b ! (j - 1))) (pitch (b ! j)) = ''m-2'' \<or> two \<and> dn (pitch (b ! (j - 1))) (pitch (b ! j)) = ''M2''"
    using c by (auto simp add: settled1_def settled2_def)
qed

lemma differs_blocks_three:
  assumes f: "follows dn two a b" and co: "coherent dn" and j: "j < length a"
    and d: "skel (b ! j) \<noteq> skel (a ! j)" and w: "i \<le> j" "j \<le> i + 2"
  shows "\<not> ruleThree_match dn a i" and "\<not> ruleFourB_match dn a i"
proof -
  note D = differs_facts [OF f j d]
  from w have c: "j = i \<or> j = i + 1 \<or> j = i + 2" by auto
  show "\<not> ruleThree_match dn a i"
    using D(1) c by (auto simp add: ruleThree_match_def isFlat_def)
  show "\<not> ruleFourB_match dn a i"
  proof
    assume m: "ruleFourB_match dn a i"
    then have "j = i + 1" using D(1) c by (auto simp add: ruleFourB_match_def isFlat_def)
    then have "dn (pitch (a ! (j - 1))) (pitch (a ! j)) = ''m3''"
      using m by (simp add: ruleFourB_match_def)
    then have "dn (pitch (a ! (j - 1))) (naturalised (pitch (a ! j))) = ''M3''"
      using co D(1) by (simp add: coherent_def isFlat_def)
    then show False using D(2,4,5) by auto
  qed
qed

lemma differs_blocks_two:
  assumes f: "follows dn False a b" and co: "coherent dn" and j: "j < length a"
    and d: "skel (b ! j) \<noteq> skel (a ! j)" and w: "i \<le> j" "j \<le> i + 3"
  shows "\<not> ruleTwo_match dn a i"
proof
  note D = differs_facts [OF f j d]
  from w have c: "j = i \<or> j = i + 1 \<or> j = i + 2 \<or> j = i + 3" by auto
  assume m: "ruleTwo_match dn a i"
  then have "j = i + 2" using D(1) c by (auto simp add: ruleTwo_match_def isFlat_def)
  then have "dn (pitch (a ! (j - 1))) (pitch (a ! j)) = ''m2''"
    using m by (simp add: ruleTwo_match_def)
  then have "dn (pitch (a ! (j - 1))) (naturalised (pitch (a ! j))) = ''M2''"
    using co D(1) by (simp add: coherent_def isFlat_def)
  then show False using D(2,4,5) by auto
qed


text \<open>
  One step of a rule on two streams related by \<open>follows\<close>: the test gives the same
  answer on both, and the relation holds again afterwards.
\<close>

lemma unchanged_follows:
  assumes f: "follows dn two a b"
    and la: "length a' = length a" and lb: "length b' = length b"
    and ea: "\<forall>q<length a. skel (a' ! q) = skel (a ! q)"
    and eb: "\<forall>q<length b. skel (b' ! q) = skel (b ! q)"
  shows "follows dn two a' b'"
proof (rule follows_skel [OF _ _ f])
  show "map skel a = map skel a'" using la ea by (simp add: list_eq_iff_nth_eq)
  show "map skel b = map skel b'" using lb eb by (simp add: list_eq_iff_nth_eq)
qed

lemma lockstep_step:
  fixes stp :: "nat \<Rightarrow> nat \<times> stream \<Rightarrow> nat \<times> stream" and M :: "stream \<Rightarrow> nat \<Rightarrow> bool"
  assumes cnt: "\<And>i n s. fst (stp i (n, s)) = (if M s i then n + 1 else n)"
    and len: "\<And>i n s. length (snd (stp i (n, s))) = length s"
    and skl: "\<And>i n s q. i + w < length s \<Longrightarrow> q < length s \<Longrightarrow>
                skel (snd (stp i (n, s)) ! q)
                = (if M s i \<and> q = i + off \<and> isFlat (s ! q)
                   then (False, naturalised (pitch (s ! q))) else skel (s ! q))"
    and win: "\<And>s t i. (\<forall>q. i \<le> q \<and> q \<le> i + w \<longrightarrow> skel (s ! q) = skel (t ! q)) \<Longrightarrow> M s i = M t i"
    and off: "off \<le> w"
    and blockb: "\<And>b i j. settled1 dn b j \<or> two \<and> settled2 dn b j \<Longrightarrow> i \<le> j \<Longrightarrow> j \<le> i + w
                   \<Longrightarrow> \<not> M b i"
    and blocka: "\<And>a b i j. follows dn two a b \<Longrightarrow> j < length a \<Longrightarrow> skel (b ! j) \<noteq> skel (a ! j)
                   \<Longrightarrow> i \<le> j \<Longrightarrow> j \<le> i + w \<Longrightarrow> \<not> M a i"
    and f: "follows dn two a b" and i: "i + w < length a"
  shows "follows dn two (snd (stp i (n, a))) (snd (stp i (m, b)))
         \<and> fst (stp i (n, a)) + m = fst (stp i (m, b)) + n"
proof -
  let ?a = "snd (stp i (n, a))" and ?b = "snd (stp i (m, b))"
  have l: "length b = length a" using f by (simp add: follows_def)
  have ib: "i + w < length b" using i l by simp
  have la: "length ?a = length a" and lb: "length ?b = length b" by (rule len)+
  show ?thesis
  proof (cases "M a i \<and> M b i")
    case False
    have both: "\<not> M a i \<and> \<not> M b i"
    proof (cases "\<exists>j. i \<le> j \<and> j \<le> i + w \<and> skel (b ! j) \<noteq> skel (a ! j)")
      case True
      then obtain j where j: "i \<le> j" "j \<le> i + w" "skel (b ! j) \<noteq> skel (a ! j)" by blast
      have jl: "j < length a" using j(2) i by simp
      have "settled1 dn b j \<or> two \<and> settled2 dn b j"
        using f jl j(3) by (auto simp add: follows_def)
      then have "\<not> M b i" using blockb j by blast
      moreover have "\<not> M a i" using blocka [OF f jl j(3) j(1) j(2)] .
      ultimately show ?thesis by simp
    next
      case no: False
      then have "M b i = M a i" using win [of i b a] by blast
      then show ?thesis using False by simp
    qed
    have "follows dn two ?a ?b"
      using unchanged_follows [OF f la lb] skl [OF i] skl [OF ib] both by simp
    moreover have "fst (stp i (n, a)) + m = fst (stp i (m, b)) + n"
      using both by (simp add: cnt)
    ultimately show ?thesis by simp
  next
    case True
    let ?p = "i + off"
    have pl: "?p < length a" using i off by simp
    have same: "\<And>j. i \<le> j \<Longrightarrow> j \<le> i + w \<Longrightarrow> skel (b ! j) = skel (a ! j)"
    proof (rule ccontr)
      fix j assume j: "i \<le> j" "j \<le> i + w" "skel (b ! j) \<noteq> skel (a ! j)"
      have jl: "j < length a" using j(2) i by simp
      show False using blocka [OF f jl j(3) j(1) j(2)] True by simp
    qed
    have sp: "skel (b ! ?p) = skel (a ! ?p)" using same [of ?p] off by simp
    then have fp: "isFlat (b ! ?p) = isFlat (a ! ?p)" "pitch (b ! ?p) = pitch (a ! ?p)"
      by (simp_all add: isFlat_def skel_def)
    have keep: "\<forall>r<length b. skel (?b ! r) = skel (b ! r) \<or> \<not> clean (b ! r)"
      using skl [OF ib, of _ m] by (auto simp add: clean_def isFlat_def)
    have "follows dn two ?a ?b"
      unfolding follows_def
    proof (intro conjI allI impI)
      show "length ?b = length ?a" using la lb l by simp
      fix q assume "q < length ?a"
      then have q: "q < length a" "q < length b" using la l by simp_all
      show "skel (?b ! q) = skel (?a ! q)
            \<or> (isFlat (?a ! q) \<and> skel (?b ! q) = (False, naturalised (pitch (?a ! q)))
                \<and> (settled1 dn ?b q \<or> two \<and> settled2 dn ?b q))"
      proof (cases "q = ?p")
        case True
        then show ?thesis using skl [OF i q(1), of n] skl [OF ib q(2), of m] sp fp \<open>M a i \<and> M b i\<close>
          by simp
      next
        case False
        have ua: "skel (?a ! q) = skel (a ! q)" using skl [OF i q(1), of n] False by simp
        have ub: "skel (?b ! q) = skel (b ! q)" using skl [OF ib q(2), of m] False by simp
        from f q(1) have "skel (b ! q) = skel (a ! q)
            \<or> (isFlat (a ! q) \<and> skel (b ! q) = (False, naturalised (pitch (a ! q)))
                \<and> (settled1 dn b q \<or> two \<and> settled2 dn b q))"
          by (simp add: follows_def)
        then show ?thesis
          using ua ub settled_preserved [OF lb keep, of dn q]
          by (auto simp add: isFlat_def skel_def)
      qed
    qed
    moreover have "fst (stp i (n, a)) + m = fst (stp i (m, b)) + n"
      using True by (simp add: cnt)
    ultimately show ?thesis by simp
  qed
qed

lemma lockstep_fold:
  fixes stp :: "nat \<Rightarrow> nat \<times> stream \<Rightarrow> nat \<times> stream" and M :: "stream \<Rightarrow> nat \<Rightarrow> bool"
  assumes cnt: "\<And>i n s. fst (stp i (n, s)) = (if M s i then n + 1 else n)"
    and len: "\<And>i n s. length (snd (stp i (n, s))) = length s"
    and skl: "\<And>i n s q. i + w < length s \<Longrightarrow> q < length s \<Longrightarrow>
                skel (snd (stp i (n, s)) ! q)
                = (if M s i \<and> q = i + off \<and> isFlat (s ! q)
                   then (False, naturalised (pitch (s ! q))) else skel (s ! q))"
    and win: "\<And>s t i. (\<forall>q. i \<le> q \<and> q \<le> i + w \<longrightarrow> skel (s ! q) = skel (t ! q)) \<Longrightarrow> M s i = M t i"
    and off: "off \<le> w"
    and blockb: "\<And>b i j. settled1 dn b j \<or> two \<and> settled2 dn b j \<Longrightarrow> i \<le> j \<Longrightarrow> j \<le> i + w
                   \<Longrightarrow> \<not> M b i"
    and blocka: "\<And>a b i j. follows dn two a b \<Longrightarrow> j < length a \<Longrightarrow> skel (b ! j) \<noteq> skel (a ! j)
                   \<Longrightarrow> i \<le> j \<Longrightarrow> j \<le> i + w \<Longrightarrow> \<not> M a i"
  shows "follows dn two a b \<Longrightarrow> (\<forall>i\<in>set js. i + w < length a) \<Longrightarrow>
         follows dn two (snd (fold stp js (n, a))) (snd (fold stp js (m, b)))
         \<and> fst (fold stp js (n, a)) + m = fst (fold stp js (m, b)) + n"
proof (induction js arbitrary: n m a b)
  case Nil
  then show ?case by simp
next
  case (Cons i js)
  obtain n1 a1 where sa: "stp i (n, a) = (n1, a1)" by (cases "stp i (n, a)")
  obtain m1 b1 where sb: "stp i (m, b) = (m1, b1)" by (cases "stp i (m, b)")
  have i: "i + w < length a" using Cons.prems(2) by simp
  have st: "follows dn two a1 b1 \<and> n1 + m = m1 + n"
    using lockstep_step [of stp M w off dn two a b i n m, OF cnt len skl win off blockb blocka
        Cons.prems(1) i] sa sb
    by simp
  have l1: "length a1 = length a" using len [of i n a] sa by simp
  have r: "\<forall>k\<in>set js. k + w < length a1" using Cons.prems(2) l1 by simp
  have "follows dn two (snd (fold stp js (n1, a1))) (snd (fold stp js (m1, b1)))
        \<and> fst (fold stp js (n1, a1)) + m1 = fst (fold stp js (m1, b1)) + n1"
    using Cons.IH [of a1 b1 n1 m1] st r by blast
  then show ?case using st by (simp add: sa sb)
qed


text \<open>
  A step of rule one or two that clears a flat settles it: the cleared pivot stands a minor
  second from its neighbours, as \<open>coherent\<close> says.
\<close>

lemma producer_step:
  fixes stp :: "nat \<Rightarrow> nat \<times> stream \<Rightarrow> nat \<times> stream" and M :: "stream \<Rightarrow> nat \<Rightarrow> bool"
  assumes len: "\<And>i n s. length (snd (stp i (n, s))) = length s"
    and skl: "\<And>i n s q. i + w < length s \<Longrightarrow> q < length s \<Longrightarrow>
                skel (snd (stp i (n, s)) ! q)
                = (if M s i \<and> q = i + off \<and> isFlat (s ! q)
                   then (False, naturalised (pitch (s ! q))) else skel (s ! q))"
    and off: "off \<le> w"
    and settle: "\<And>s i n. M s i \<Longrightarrow> i + w < length s \<Longrightarrow> isFlat (s ! (i + off)) \<Longrightarrow>
                   settled1 dn (snd (stp i (n, s))) (i + off)
                   \<or> two \<and> settled2 dn (snd (stp i (n, s))) (i + off)"
    and f: "follows dn two a b" and i: "i + w < length b"
  shows "follows dn two a (snd (stp i (m, b)))"
proof -
  let ?b = "snd (stp i (m, b))"
  let ?p = "i + off"
  have l: "length b = length a" using f by (simp add: follows_def)
  have lb: "length ?b = length b" by (rule len)
  have keep: "\<forall>r<length b. skel (?b ! r) = skel (b ! r) \<or> \<not> clean (b ! r)"
    using skl [OF i, of _ m] by (auto simp add: clean_def isFlat_def)
  show ?thesis
    unfolding follows_def
  proof (intro conjI allI impI)
    show "length ?b = length a" using lb l by simp
    fix q assume qa: "q < length a"
    then have q: "q < length b" using l by simp
    from f qa have old: "skel (b ! q) = skel (a ! q)
            \<or> (isFlat (a ! q) \<and> skel (b ! q) = (False, naturalised (pitch (a ! q)))
                \<and> (settled1 dn b q \<or> two \<and> settled2 dn b q))"
      by (simp add: follows_def)
    show "skel (?b ! q) = skel (a ! q)
            \<or> (isFlat (a ! q) \<and> skel (?b ! q) = (False, naturalised (pitch (a ! q)))
                \<and> (settled1 dn ?b q \<or> two \<and> settled2 dn ?b q))"
    proof (cases "M b i \<and> q = ?p \<and> isFlat (b ! q)")
      case True
      then have mb: "M b i" and fb: "isFlat (b ! q)" and qp: "q = i + off" by blast+
      have e: "skel (b ! q) = skel (a ! q)"
      proof (rule ccontr)
        assume "skel (b ! q) \<noteq> skel (a ! q)"
        then have "settled1 dn b q \<or> settled2 dn b q" using old by auto
        then have "clean (b ! q)" by (auto simp add: settled1_def settled2_def)
        then show False using fb by (simp add: clean_def isFlat_def)
      qed
      have "isFlat (a ! q)" using e fb by (simp add: isFlat_def skel_def)
      moreover have "pitch (b ! q) = pitch (a ! q)" using e by (simp add: skel_def)
      moreover have "skel (?b ! q) = (False, naturalised (pitch (b ! q)))"
        using skl [OF i q, of m] mb fb qp by simp
      moreover have "settled1 dn ?b q \<or> two \<and> settled2 dn ?b q"
        using settle [of b i m] mb fb i unfolding qp by simp
      ultimately show ?thesis by simp
    next
      case False
      then have ub: "skel (?b ! q) = skel (b ! q)" using skl [OF i q, of m] by auto
      show ?thesis
        using old ub settled_preserved [OF lb keep, of dn q] by auto
    qed
  qed
qed

lemma producer_fold:
  fixes stp :: "nat \<Rightarrow> nat \<times> stream \<Rightarrow> nat \<times> stream" and M :: "stream \<Rightarrow> nat \<Rightarrow> bool"
  assumes len: "\<And>i n s. length (snd (stp i (n, s))) = length s"
    and skl: "\<And>i n s q. i + w < length s \<Longrightarrow> q < length s \<Longrightarrow>
                skel (snd (stp i (n, s)) ! q)
                = (if M s i \<and> q = i + off \<and> isFlat (s ! q)
                   then (False, naturalised (pitch (s ! q))) else skel (s ! q))"
    and off: "off \<le> w"
    and settle: "\<And>s i n. M s i \<Longrightarrow> i + w < length s \<Longrightarrow> isFlat (s ! (i + off)) \<Longrightarrow>
                   settled1 dn (snd (stp i (n, s))) (i + off)
                   \<or> two \<and> settled2 dn (snd (stp i (n, s))) (i + off)"
  shows "follows dn two a b \<Longrightarrow> (\<forall>i\<in>set js. i + w < length b) \<Longrightarrow>
         follows dn two a (snd (fold stp js (m, b)))"
proof (induction js arbitrary: m b)
  case Nil
  then show ?case by simp
next
  case (Cons i js)
  obtain m1 b1 where sb: "stp i (m, b) = (m1, b1)" by (cases "stp i (m, b)")
  have i: "i + w < length b" using Cons.prems(2) by simp
  have f1: "follows dn two a b1"
    using producer_step [of stp w M off dn two a b i m, OF len skl off settle Cons.prems(1) i] sb
    by simp
  have l1: "length b1 = length b" using len [of i m b] sb by simp
  have "\<forall>k\<in>set js. k + w < length b1" using Cons.prems(2) l1 by simp
  from Cons.IH [OF f1 this, of m1] show ?case by (simp add: sb)
qed

lemma ruleOne_settles:
  assumes co: "coherent dn" and m: "ruleOne_match dn s i" and i: "i + 2 < length s"
    and fl: "isFlat (s ! (i + 1))"
  shows "settled1 dn (snd (capuaRuleOne_step dn i (n, s))) (i + 1)"
proof -
  let ?t = "snd (capuaRuleOne_step dn i (n, s))"
  have l: "length ?t = length s" by (rule ruleOne_len)
  have k: "skel (?t ! i) = skel (s ! i)" "skel (?t ! (i + 2)) = skel (s ! (i + 2))"
    "skel (?t ! (i + 1)) = (False, naturalised (pitch (s ! (i + 1))))"
    using ruleOne_step_skel [OF i, of _ dn n] i m fl by simp_all
  have d: "dn (pitch (s ! i)) (naturalised (pitch (s ! (i + 1)))) = ''m-2''"
    "dn (naturalised (pitch (s ! (i + 1)))) (pitch (s ! (i + 2))) = ''m2''"
    using co m fl by (auto simp add: coherent_def ruleOne_match_def isFlat_def)
  show ?thesis
    using k d m l i
    by (simp add: settled1_def clean_def skel_def ruleOne_match_def naturalised_def)
qed

lemma ruleTwo_settles:
  assumes co: "coherent dn" and m: "ruleTwo_match dn s i" and i: "i + 3 < length s"
    and fl: "isFlat (s ! (i + 2))"
  shows "settled2 dn (snd (capuaRuleTwo_step dn i (n, s))) (i + 2)"
proof -
  let ?t = "snd (capuaRuleTwo_step dn i (n, s))"
  have l: "length ?t = length s" by (rule ruleTwo_len)
  have k: "skel (?t ! i) = skel (s ! i)" "skel (?t ! (i + 1)) = skel (s ! (i + 1))"
    "skel (?t ! (i + 3)) = skel (s ! (i + 3))"
    "skel (?t ! (i + 2)) = (False, naturalised (pitch (s ! (i + 2))))"
    using ruleTwo_step_skel [OF i, of _ dn n] i m fl by simp_all
  have d: "dn (pitch (s ! (i + 1))) (naturalised (pitch (s ! (i + 2)))) = ''M2''"
    "dn (naturalised (pitch (s ! (i + 2)))) (pitch (s ! (i + 3))) = ''m2''"
    using co m fl by (auto simp add: coherent_def ruleTwo_match_def isFlat_def)
  have e: "Suc (Suc (Suc i)) = i + 3" by simp
  show ?thesis
    using k d m l i
    by (simp add: settled2_def clean_def skel_def ruleTwo_match_def naturalised_def e)
qed


lemma ruleThree_step_skel_flat:
  assumes "i + 2 < length s" "q < length s"
  shows "skel (snd (capuaRuleThree_step dn i (n, s)) ! q)
         = (if ruleThree_match dn s i \<and> q = i + 1 \<and> isFlat (s ! q)
            then (False, naturalised (pitch (s ! q))) else skel (s ! q))"
proof -
  have "\<not> (ruleThree_match dn s i \<and> q = i + 1 \<and> isFlat (s ! q))"
    by (auto simp add: ruleThree_match_def isFlat_def)
  then have "(if ruleThree_match dn s i \<and> q = i + 1 \<and> isFlat (s ! q)
            then (False, naturalised (pitch (s ! q))) else skel (s ! q)) = skel (s ! q)"
    by (simp only: if_False)
  then show ?thesis using ruleThree_step_skel [OF assms, of dn n] by (simp only:)
qed

lemma ruleThree_settles:
  assumes "ruleThree_match dn s i" "isFlat (s ! (i + 1))"
  shows "settled1 dn (snd (capuaRuleThree_step dn i (n, s))) (i + 1)"
  using assms by (simp add: ruleThree_match_def isFlat_def)

text \<open>Each scan, started from a stream that follows \<open>a\<close>, ends in one that follows \<open>a\<close>.\<close>

lemma capuaRuleOne_follows:
  assumes "coherent dn" "follows dn two a b"
  shows "follows dn two a (snd (capuaRuleOne dn b))"
  unfolding capuaRuleOne_def
proof (rule producer_fold [where w = 2 and off = 1 and M = "ruleOne_match dn", OF _ _ _ _ assms(2)])
  show "\<And>i n s. length (snd (capuaRuleOne_step dn i (n, s))) = length s" by (rule ruleOne_len)
  show "\<And>i n s q. i + 2 < length s \<Longrightarrow> q < length s \<Longrightarrow>
          skel (snd (capuaRuleOne_step dn i (n, s)) ! q)
          = (if ruleOne_match dn s i \<and> q = i + 1 \<and> isFlat (s ! q)
             then (False, naturalised (pitch (s ! q))) else skel (s ! q))"
    by (rule ruleOne_step_skel)
  show "(1::nat) \<le> 2" by simp
  show "\<And>s i n. ruleOne_match dn s i \<Longrightarrow> i + 2 < length s \<Longrightarrow> isFlat (s ! (i + 1)) \<Longrightarrow>
          settled1 dn (snd (capuaRuleOne_step dn i (n, s))) (i + 1)
          \<or> two \<and> settled2 dn (snd (capuaRuleOne_step dn i (n, s))) (i + 1)"
    using ruleOne_settles [OF assms(1)] by blast
  show "\<forall>i\<in>set [0 ..< length b - 2]. i + 2 < length b" by auto
qed

lemma capuaRuleTwo_follows:
  assumes "coherent dn" "follows dn True a b"
  shows "follows dn True a (snd (capuaRuleTwo dn b))"
  unfolding capuaRuleTwo_def
proof (rule producer_fold [where w = 3 and off = 2 and M = "ruleTwo_match dn", OF _ _ _ _ assms(2)])
  show "\<And>i n s. length (snd (capuaRuleTwo_step dn i (n, s))) = length s" by (rule ruleTwo_len)
  show "\<And>i n s q. i + 3 < length s \<Longrightarrow> q < length s \<Longrightarrow>
          skel (snd (capuaRuleTwo_step dn i (n, s)) ! q)
          = (if ruleTwo_match dn s i \<and> q = i + 2 \<and> isFlat (s ! q)
             then (False, naturalised (pitch (s ! q))) else skel (s ! q))"
    by (rule ruleTwo_step_skel)
  show "(2::nat) \<le> 3" by simp
  show "\<And>s i n. ruleTwo_match dn s i \<Longrightarrow> i + 3 < length s \<Longrightarrow> isFlat (s ! (i + 2)) \<Longrightarrow>
          settled1 dn (snd (capuaRuleTwo_step dn i (n, s))) (i + 2)
          \<or> True \<and> settled2 dn (snd (capuaRuleTwo_step dn i (n, s))) (i + 2)"
    using ruleTwo_settles [OF assms(1)] by blast
  show "\<forall>i\<in>set [0 ..< length b - 3]. i + 3 < length b" by auto
qed

lemma capuaRuleThree_follows:
  assumes "follows dn two a b"
  shows "follows dn two a (snd (capuaRuleThree dn b))"
  unfolding capuaRuleThree_def
proof (rule producer_fold [where w = 2 and off = 1 and M = "ruleThree_match dn", OF _ _ _ _ assms])
  show "\<And>i n s. length (snd (capuaRuleThree_step dn i (n, s))) = length s" by (rule ruleThree_len)
  show "\<And>i n s q. i + 2 < length s \<Longrightarrow> q < length s \<Longrightarrow>
          skel (snd (capuaRuleThree_step dn i (n, s)) ! q)
          = (if ruleThree_match dn s i \<and> q = i + 1 \<and> isFlat (s ! q)
             then (False, naturalised (pitch (s ! q))) else skel (s ! q))"
    by (rule ruleThree_step_skel_flat)
  show "(1::nat) \<le> 2" by simp
  show "\<And>s i n. ruleThree_match dn s i \<Longrightarrow> i + 2 < length s \<Longrightarrow> isFlat (s ! (i + 1)) \<Longrightarrow>
          settled1 dn (snd (capuaRuleThree_step dn i (n, s))) (i + 1)
          \<or> two \<and> settled2 dn (snd (capuaRuleThree_step dn i (n, s))) (i + 1)"
    using ruleThree_settles by blast
  show "\<forall>i\<in>set [0 ..< length b - 2]. i + 2 < length b" by auto
qed

text \<open>A later rule counts the same on a stream and on one that follows it.\<close>

lemma capuaRuleTwo_same_count:
  assumes co: "coherent dn" and f: "follows dn False a b"
  shows "fst (capuaRuleTwo dn b) = fst (capuaRuleTwo dn a)"
proof -
  have l: "length b = length a" using f by (simp add: follows_def)
  have r: "\<forall>i\<in>set [0 ..< length a - 3]. i + 3 < length a" by auto
  have "fst (fold (capuaRuleTwo_step dn) [0 ..< length a - 3] (0, a)) + 0
        = fst (fold (capuaRuleTwo_step dn) [0 ..< length a - 3] (0, b)) + 0"
  proof (rule lockstep_fold [where w = 3 and off = 2 and M = "ruleTwo_match dn" and two = False
        and dn = dn, THEN conjunct2, OF _ _ _ _ _ _ _ f r])
    show "\<And>i n s. fst (capuaRuleTwo_step dn i (n, s)) = (if ruleTwo_match dn s i then n + 1 else n)"
      by (rule ruleTwo_cnt)
    show "\<And>i n s. length (snd (capuaRuleTwo_step dn i (n, s))) = length s" by (rule ruleTwo_len)
    show "\<And>i n s q. i + 3 < length s \<Longrightarrow> q < length s \<Longrightarrow>
          skel (snd (capuaRuleTwo_step dn i (n, s)) ! q)
          = (if ruleTwo_match dn s i \<and> q = i + 2 \<and> isFlat (s ! q)
             then (False, naturalised (pitch (s ! q))) else skel (s ! q))"
      by (rule ruleTwo_step_skel)
    show "\<And>s t i. (\<forall>q. i \<le> q \<and> q \<le> i + 3 \<longrightarrow> skel (s ! q) = skel (t ! q)) \<Longrightarrow>
          ruleTwo_match dn s i = ruleTwo_match dn t i"
      by (rule match_window)
    show "(2::nat) \<le> 3" by simp
    show "\<And>b i j. settled1 dn b j \<or> False \<and> settled2 dn b j \<Longrightarrow> i \<le> j \<Longrightarrow> j \<le> i + 3 \<Longrightarrow>
          \<not> ruleTwo_match dn b i"
      using settled_blocks_two by blast
    show "\<And>a b i j. follows dn False a b \<Longrightarrow> j < length a \<Longrightarrow> skel (b ! j) \<noteq> skel (a ! j) \<Longrightarrow>
          i \<le> j \<Longrightarrow> j \<le> i + 3 \<Longrightarrow> \<not> ruleTwo_match dn a i"
      using differs_blocks_two [OF _ co] by blast
  qed
  then show ?thesis by (simp add: capuaRuleTwo_def l)
qed

lemma capuaRuleThree_same_count:
  assumes co: "coherent dn" and f: "follows dn True a b"
  shows "fst (capuaRuleThree dn b) = fst (capuaRuleThree dn a)"
proof -
  have l: "length b = length a" using f by (simp add: follows_def)
  have r: "\<forall>i\<in>set [0 ..< length a - 2]. i + 2 < length a" by auto
  have "fst (fold (capuaRuleThree_step dn) [0 ..< length a - 2] (0, a)) + 0
        = fst (fold (capuaRuleThree_step dn) [0 ..< length a - 2] (0, b)) + 0"
  proof (rule lockstep_fold [where w = 2 and off = 1 and M = "ruleThree_match dn" and two = True
        and dn = dn, THEN conjunct2, OF _ _ _ _ _ _ _ f r])
    show "\<And>i n s. fst (capuaRuleThree_step dn i (n, s)) = (if ruleThree_match dn s i then n + 1 else n)"
      by (rule ruleThree_cnt)
    show "\<And>i n s. length (snd (capuaRuleThree_step dn i (n, s))) = length s" by (rule ruleThree_len)
    show "\<And>i n s q. i + 2 < length s \<Longrightarrow> q < length s \<Longrightarrow>
          skel (snd (capuaRuleThree_step dn i (n, s)) ! q)
          = (if ruleThree_match dn s i \<and> q = i + 1 \<and> isFlat (s ! q)
             then (False, naturalised (pitch (s ! q))) else skel (s ! q))"
      by (rule ruleThree_step_skel_flat)
    show "\<And>s t i. (\<forall>q. i \<le> q \<and> q \<le> i + 2 \<longrightarrow> skel (s ! q) = skel (t ! q)) \<Longrightarrow>
          ruleThree_match dn s i = ruleThree_match dn t i"
      by (rule match_window3)
    show "(1::nat) \<le> 2" by simp
    show "\<And>b i j. settled1 dn b j \<or> True \<and> settled2 dn b j \<Longrightarrow> i \<le> j \<Longrightarrow> j \<le> i + 2 \<Longrightarrow>
          \<not> ruleThree_match dn b i"
      using settled_blocks_three(1) by blast
    show "\<And>a b i j. follows dn True a b \<Longrightarrow> j < length a \<Longrightarrow> skel (b ! j) \<noteq> skel (a ! j) \<Longrightarrow>
          i \<le> j \<Longrightarrow> j \<le> i + 2 \<Longrightarrow> \<not> ruleThree_match dn a i"
      using differs_blocks_three(1) [OF _ co] by blast
  qed
  then show ?thesis by (simp add: capuaRuleThree_def l)
qed

lemma capuaRuleFourB_same_count:
  assumes co: "coherent dn" and f: "follows dn True a b"
  shows "fst (capuaRuleFourB dn b) = fst (capuaRuleFourB dn a)"
proof -
  have l: "length b = length a" using f by (simp add: follows_def)
  have r: "\<forall>i\<in>set [0 ..< length a - 2]. i + 2 < length a" by auto
  have "fst (fold (capuaRuleFourB_step dn) [0 ..< length a - 2] (0, a)) + 0
        = fst (fold (capuaRuleFourB_step dn) [0 ..< length a - 2] (0, b)) + 0"
  proof (rule lockstep_fold [where w = 2 and off = 1 and M = "ruleFourB_match dn" and two = True
        and dn = dn, THEN conjunct2, OF _ _ _ _ _ _ _ f r])
    show "\<And>i n s. fst (capuaRuleFourB_step dn i (n, s)) = (if ruleFourB_match dn s i then n + 1 else n)"
      by (rule ruleFourB_cnt)
    show "\<And>i n s. length (snd (capuaRuleFourB_step dn i (n, s))) = length s" by (rule ruleFourB_len)
    show "\<And>i n s q. i + 2 < length s \<Longrightarrow> q < length s \<Longrightarrow>
          skel (snd (capuaRuleFourB_step dn i (n, s)) ! q)
          = (if ruleFourB_match dn s i \<and> q = i + 1 \<and> isFlat (s ! q)
             then (False, naturalised (pitch (s ! q))) else skel (s ! q))"
      by (rule ruleFourB_step_skel)
    show "\<And>s t i. (\<forall>q. i \<le> q \<and> q \<le> i + 2 \<longrightarrow> skel (s ! q) = skel (t ! q)) \<Longrightarrow>
          ruleFourB_match dn s i = ruleFourB_match dn t i"
      by (rule match_window3)
    show "(1::nat) \<le> 2" by simp
    show "\<And>b i j. settled1 dn b j \<or> True \<and> settled2 dn b j \<Longrightarrow> i \<le> j \<Longrightarrow> j \<le> i + 2 \<Longrightarrow>
          \<not> ruleFourB_match dn b i"
      using settled_blocks_three(2) by blast
    show "\<And>a b i j. follows dn True a b \<Longrightarrow> j < length a \<Longrightarrow> skel (b ! j) \<noteq> skel (a ! j) \<Longrightarrow>
          i \<le> j \<Longrightarrow> j \<le> i + 2 \<Longrightarrow> \<not> ruleFourB_match dn a i"
      using differs_blocks_three(2) [OF _ co] by blast
  qed
  then show ?thesis by (simp add: capuaRuleFourB_def l)
qed

lemma rules_in_order_any_stream:
  assumes co: "coherent dn"
  shows "fst (capuaRuleTwo dn (snd (capuaRuleOne dn t))) = fst (capuaRuleTwo dn t)"
    and "fst (capuaRuleThree dn (snd (capuaRuleTwo dn (snd (capuaRuleOne dn t)))))
         = fst (capuaRuleThree dn t)"
    and "fst (capuaRuleFourB dn (snd (capuaRuleThree dn (snd (capuaRuleTwo dn (snd (capuaRuleOne dn t)))))))
         = fst (capuaRuleFourB dn t)"
proof -
  let ?s1 = "snd (capuaRuleOne dn t)"
  let ?s2 = "snd (capuaRuleTwo dn ?s1)"
  let ?s3 = "snd (capuaRuleThree dn ?s2)"
  have f1: "follows dn False t ?s1" by (rule capuaRuleOne_follows [OF co follows_refl])
  have f2: "follows dn True t ?s2" by (rule capuaRuleTwo_follows [OF co follows_two [OF f1]])
  have f3: "follows dn True t ?s3" by (rule capuaRuleThree_follows [OF f2])
  show "fst (capuaRuleTwo dn ?s1) = fst (capuaRuleTwo dn t)"
    by (rule capuaRuleTwo_same_count [OF co f1])
  show "fst (capuaRuleThree dn ?s2) = fst (capuaRuleThree dn t)"
    by (rule capuaRuleThree_same_count [OF co f2])
  show "fst (capuaRuleFourB dn ?s3) = fst (capuaRuleFourB dn t)"
    by (rule capuaRuleFourB_same_count [OF co f3])
qed

text \<open>The reference interval primitive is coherent.\<close>

lemma showNat_digits: "set (showNat n) \<subseteq> set ''0123456789''"
proof (induction n rule: showNat.induct)
  case (1 n)
  have d: "''0123456789'' ! k \<in> set ''0123456789''" if "k < 10" for k :: nat
    by (rule nth_mem) (use that in simp)
  show ?case
  proof (cases "n < 10")
    case True
    then show ?thesis using d [of n] by (subst showNat.simps) simp
  next
    case False
    have "n mod 10 < 10" by simp
    then show ?thesis using 1 False d [of "n mod 10"] by (subst showNat.simps) simp
  qed
qed

lemma showNat_nonempty: "showNat n \<noteq> []"
  by (subst showNat.simps) simp

lemma showNat_single:
  assumes "showNat n = [c]"
  shows "n < 10 \<and> c = ''0123456789'' ! n"
proof (cases "n < 10")
  case True
  then show ?thesis using assms by (subst (asm) showNat.simps) simp
next
  case False
  then have "showNat (n div 10) @ [''0123456789'' ! (n mod 10)] = [c]"
    using assms by (subst (asm) showNat.simps) simp
  then show ?thesis using showNat_nonempty [of "n div 10"] by simp
qed

lemma digit_index:
  assumes "n < 10" "k < 10" "''0123456789'' ! n = ''0123456789'' ! k"
  shows "n = k"
proof -
  have d: "distinct ''0123456789''" by simp
  show ?thesis using nth_eq_iff_index_eq [OF d, of n k] assms by simp
qed

lemma showNat_two: "showNat n = ''2'' \<Longrightarrow> n = 2"
  using showNat_single [of n "CHR ''2''"] digit_index [of n 2] by simp

lemma showNat_three: "showNat n = ''3'' \<Longrightarrow> n = 3"
  using showNat_single [of n "CHR ''3''"] digit_index [of n 3] by simp

lemma showNat_no_sign: "showNat n \<noteq> CHR ''-'' # r"
proof
  assume "showNat n = CHR ''-'' # r"
  then have "CHR ''-'' \<in> set (showNat n)" by simp
  then show False using showNat_digits [of n] by auto
qed

lemma specifier_major:
  "specifier b off @ r = CHR ''M'' # r' \<Longrightarrow> \<not> b \<and> off = 0 \<and> r = r'"
  by (auto simp add: specifier_def split: if_splits)

lemma specifier_minor:
  "specifier b off @ r = CHR ''m'' # r' \<Longrightarrow> \<not> b \<and> off = - 1 \<and> r = r'"
  by (auto simp add: specifier_def split: if_splits)

lemma descending_second:
  assumes "(if g < (0::int) then ''-'' else []) @ showNat (nat \<bar>g\<bar> + 1) = ''-2''"
  shows "g = - 1"
proof (cases "g < 0")
  case True
  then have "showNat (nat \<bar>g\<bar> + 1) = ''2''" using assms by simp
  then have "nat \<bar>g\<bar> + 1 = 2" by (rule showNat_two)
  then show ?thesis using True by arith
next
  case False
  then show ?thesis using assms showNat_no_sign by simp
qed

lemma ascending_step:
  assumes "(if g < (0::int) then ''-'' else []) @ showNat (nat \<bar>g\<bar> + 1) = [c]"
  shows "0 \<le> g \<and> showNat (nat \<bar>g\<bar> + 1) = [c]"
proof (cases "g < 0")
  case True
  then show ?thesis using assms showNat_nonempty by simp
next
  case False
  then show ?thesis using assms by simp
qed

lemma ascending_second:
  assumes "(if g < (0::int) then ''-'' else []) @ showNat (nat \<bar>g\<bar> + 1) = ''2''"
  shows "g = 1"
proof -
  from ascending_step [OF assms]
  have a: "0 \<le> g" and b: "showNat (nat \<bar>g\<bar> + 1) = ''2''" by blast+
  show ?thesis using a showNat_two [OF b] by arith
qed

lemma ascending_third:
  assumes "(if g < (0::int) then ''-'' else []) @ showNat (nat \<bar>g\<bar> + 1) = ''3''"
  shows "g = 2"
proof -
  from ascending_step [OF assms]
  have a: "0 \<le> g" and b: "showNat (nat \<bar>g\<bar> + 1) = ''3''" by blast+
  show ?thesis using a showNat_three [OF b] by arith
qed

lemma directedName_major_down:
  assumes "directedName p q = ''M-2''"
  shows "diatonicNoteNum q - diatonicNoteNum p = - 1 \<and> ps q - ps p = - 2"
proof -
  define g where "g = diatonicNoteNum q - diatonicNoteNum p"
  define off where "off = (if g < 0 then - (ps q - ps p) else ps q - ps p)
                          - (stepSemitones (\<bar>g\<bar> mod 7) + 12 * (\<bar>g\<bar> div 7))"
  have "specifier (\<bar>g\<bar> mod 7 = 0 \<or> \<bar>g\<bar> mod 7 = 3 \<or> \<bar>g\<bar> mod 7 = 4) off
        @ (if g < 0 then ''-'' else []) @ showNat (nat \<bar>g\<bar> + 1) = ''M-2''"
    using assms by (simp add: directedName_def Let_def g_def off_def)
  from specifier_major [OF this]
  have o: "off = 0" and r: "(if g < 0 then ''-'' else []) @ showNat (nat \<bar>g\<bar> + 1) = ''-2''"
    by simp_all
  have g: "g = - 1" by (rule descending_second [OF r])
  show ?thesis using o g by (simp add: off_def g_def [symmetric] stepSemitones_def)
qed

lemma directedName_major_up:
  assumes "directedName p q = ''M2''"
  shows "diatonicNoteNum q - diatonicNoteNum p = 1 \<and> ps q - ps p = 2"
proof -
  define g where "g = diatonicNoteNum q - diatonicNoteNum p"
  define off where "off = (if g < 0 then - (ps q - ps p) else ps q - ps p)
                          - (stepSemitones (\<bar>g\<bar> mod 7) + 12 * (\<bar>g\<bar> div 7))"
  have "specifier (\<bar>g\<bar> mod 7 = 0 \<or> \<bar>g\<bar> mod 7 = 3 \<or> \<bar>g\<bar> mod 7 = 4) off
        @ (if g < 0 then ''-'' else []) @ showNat (nat \<bar>g\<bar> + 1) = ''M2''"
    using assms by (simp add: directedName_def Let_def g_def off_def)
  from specifier_major [OF this]
  have o: "off = 0" and r: "(if g < 0 then ''-'' else []) @ showNat (nat \<bar>g\<bar> + 1) = ''2''"
    by simp_all
  have g: "g = 1" by (rule ascending_second [OF r])
  show ?thesis using o g by (simp add: off_def g_def [symmetric] stepSemitones_def)
qed

lemma directedName_minor_up:
  assumes "directedName p q = ''m2''"
  shows "diatonicNoteNum q - diatonicNoteNum p = 1 \<and> ps q - ps p = 1"
proof -
  define g where "g = diatonicNoteNum q - diatonicNoteNum p"
  define off where "off = (if g < 0 then - (ps q - ps p) else ps q - ps p)
                          - (stepSemitones (\<bar>g\<bar> mod 7) + 12 * (\<bar>g\<bar> div 7))"
  have "specifier (\<bar>g\<bar> mod 7 = 0 \<or> \<bar>g\<bar> mod 7 = 3 \<or> \<bar>g\<bar> mod 7 = 4) off
        @ (if g < 0 then ''-'' else []) @ showNat (nat \<bar>g\<bar> + 1) = ''m2''"
    using assms by (simp add: directedName_def Let_def g_def off_def)
  from specifier_minor [OF this]
  have o: "off = - 1" and r: "(if g < 0 then ''-'' else []) @ showNat (nat \<bar>g\<bar> + 1) = ''2''"
    by simp_all
  have g: "g = 1" by (rule ascending_second [OF r])
  show ?thesis using o g by (simp add: off_def g_def [symmetric] stepSemitones_def)
qed

lemma directedName_minor_third:
  assumes "directedName p q = ''m3''"
  shows "diatonicNoteNum q - diatonicNoteNum p = 2 \<and> ps q - ps p = 3"
proof -
  define g where "g = diatonicNoteNum q - diatonicNoteNum p"
  define off where "off = (if g < 0 then - (ps q - ps p) else ps q - ps p)
                          - (stepSemitones (\<bar>g\<bar> mod 7) + 12 * (\<bar>g\<bar> div 7))"
  have "specifier (\<bar>g\<bar> mod 7 = 0 \<or> \<bar>g\<bar> mod 7 = 3 \<or> \<bar>g\<bar> mod 7 = 4) off
        @ (if g < 0 then ''-'' else []) @ showNat (nat \<bar>g\<bar> + 1) = ''m3''"
    using assms by (simp add: directedName_def Let_def g_def off_def)
  from specifier_minor [OF this]
  have o: "off = - 1" and r: "(if g < 0 then ''-'' else []) @ showNat (nat \<bar>g\<bar> + 1) = ''3''"
    by simp_all
  have g: "g = 2" by (rule ascending_third [OF r])
  show ?thesis using o g by (simp add: off_def g_def [symmetric] stepSemitones_def)
qed

lemma directedName_of_distances:
  assumes "diatonicNoteNum q - diatonicNoteNum p = g" "ps q - ps p = c"
  shows "g = - 1 \<Longrightarrow> c = - 1 \<Longrightarrow> directedName p q = ''m-2''"
    and "g = 1 \<Longrightarrow> c = 1 \<Longrightarrow> directedName p q = ''m2''"
    and "g = 1 \<Longrightarrow> c = 2 \<Longrightarrow> directedName p q = ''M2''"
    and "g = 2 \<Longrightarrow> c = 4 \<Longrightarrow> directedName p q = ''M3''"
  using assms
  by (simp_all add: directedName_def Let_def specifier_def stepSemitones_def showNat.simps)

lemma naturalised_flat:
  assumes "accidental y = Some (Accidental ''flat'')"
  shows "diatonicNoteNum (naturalised y) = diatonicNoteNum y" "ps (naturalised y) = ps y + 1"
  using assms by (simp_all add: naturalised_def diatonicNoteNum_def ps_def alter_def)

lemma coherent_directedName: "coherent directedName"
  unfolding coherent_def
proof (intro allI impI conjI)
  fix x y :: pitch
  assume f: "accidental y = Some (Accidental ''flat'')"
  note n = naturalised_flat [OF f]
  { assume "directedName x y = ''M-2''"
    from directedName_major_down [OF this]
    show "directedName x (naturalised y) = ''m-2''"
      by (intro directedName_of_distances(1) [OF refl refl]) (simp_all add: n) }
  { assume "directedName y x = ''M2''"
    from directedName_major_up [OF this]
    show "directedName (naturalised y) x = ''m2''"
      by (intro directedName_of_distances(2) [OF refl refl]) (simp_all add: n) }
  { assume "directedName x y = ''m2''"
    from directedName_minor_up [OF this]
    show "directedName x (naturalised y) = ''M2''"
      by (intro directedName_of_distances(3) [OF refl refl]) (simp_all add: n) }
  { assume "directedName x y = ''m3''"
    from directedName_minor_third [OF this]
    show "directedName x (naturalised y) = ''M3''"
      by (intro directedName_of_distances(4) [OF refl refl]) (simp_all add: n) }
qed

text \<open>
  C2. Rule ordering independence. \<^verbatim>\<open>applyCapuaToStream\<close> clears the stream and then runs
  rule one, rule two, rule three and rule four B, each on the stream the previous one
  left. Every rule, run at its place in that order, returns the count it returns when it
  runs alone on the freshly cleared stream: the earlier rules write annotations and
  colours only, and leave every rest and pitch of the cleared stream as it was. The same
  holds when the four rules are run in that order on any stream \<open>t\<close> as it stands, flats
  included, as long as the interval primitive is coherent: a flat that an earlier rule
  takes off lies in no window that a later rule matches, before or after.
\<close>

theorem rule_order_independent:
  "(let s0 = clearedStream s;
        r1 = capuaRuleOne dn s0;
        r2 = capuaRuleTwo dn (snd r1);
        r3 = capuaRuleThree dn (snd r2);
        r4 = capuaRuleFourB dn (snd r3)
    in snd r4 = applyCapuaToStream dn s
       \<and> fst r1 = fst (capuaRuleOne dn s0)
       \<and> fst r2 = fst (capuaRuleTwo dn s0)
       \<and> fst r3 = fst (capuaRuleThree dn s0)
       \<and> fst r4 = fst (capuaRuleFourB dn s0))
   \<and> (coherent dn \<longrightarrow>
        (let r1 = capuaRuleOne dn t;
             r2 = capuaRuleTwo dn (snd r1);
             r3 = capuaRuleThree dn (snd r2);
             r4 = capuaRuleFourB dn (snd r3)
         in fst r2 = fst (capuaRuleTwo dn t)
            \<and> fst r3 = fst (capuaRuleThree dn t)
            \<and> fst r4 = fst (capuaRuleFourB dn t)))"
proof (intro conjI impI)
  define s0 where "s0 = clearedStream s"
  define s1 where "s1 = snd (capuaRuleOne dn s0)"
  define s2 where "s2 = snd (capuaRuleTwo dn s1)"
  define s3 where "s3 = snd (capuaRuleThree dn s2)"
  note K = pipeline_skel(1) [OF s0_def s1_def s2_def s3_def]
  note A = pipeline_skel(2) [OF s0_def s1_def s2_def s3_def]
  have c2: "fst (capuaRuleTwo dn s1) = fst (capuaRuleTwo dn s0)"
    using A K capuaRuleTwo_run(1) [of s1 dn] capuaRuleTwo_run(1) [of s0 dn]
      match_filter_skel(1) [of s1 s0 dn] by simp
  have c3: "fst (capuaRuleThree dn s2) = fst (capuaRuleThree dn s0)"
    using A K capuaRuleThree_run(1) [of s2 dn] capuaRuleThree_run(1) [of s0 dn]
      match_filter_skel(2) [of s2 s0 dn] by simp
  have c4: "fst (capuaRuleFourB dn s3) = fst (capuaRuleFourB dn s0)"
    using A K capuaRuleFourB_run(1) [of s3 dn] capuaRuleFourB_run(1) [of s0 dn]
      match_filter_skel(3) [of s3 s0 dn] by simp
  show "(let s0 = clearedStream s;
             r1 = capuaRuleOne dn s0;
             r2 = capuaRuleTwo dn (snd r1);
             r3 = capuaRuleThree dn (snd r2);
             r4 = capuaRuleFourB dn (snd r3)
         in snd r4 = applyCapuaToStream dn s
            \<and> fst r1 = fst (capuaRuleOne dn s0)
            \<and> fst r2 = fst (capuaRuleTwo dn s0)
            \<and> fst r3 = fst (capuaRuleThree dn s0)
            \<and> fst r4 = fst (capuaRuleFourB dn s0))"
    using c2 c3 c4
    by (simp add: Let_def applyCapuaToStream_def s0_def s1_def s2_def s3_def)
next
  assume co: "coherent dn"
  show "(let r1 = capuaRuleOne dn t;
             r2 = capuaRuleTwo dn (snd r1);
             r3 = capuaRuleThree dn (snd r2);
             r4 = capuaRuleFourB dn (snd r3)
         in fst r2 = fst (capuaRuleTwo dn t)
            \<and> fst r3 = fst (capuaRuleThree dn t)
            \<and> fst r4 = fst (capuaRuleFourB dn t))"
    using rules_in_order_any_stream [OF co, of t] by (simp add: Let_def)
qed

theorem rule_order_independent_witness:
  "fst (capuaRuleOne directedName (clearedStream melodyAll)) = 1
   \<and> fst (capuaRuleTwo directedName (snd (capuaRuleOne directedName (clearedStream melodyAll)))) = 1
   \<and> fst (capuaRuleThree directedName
            (snd (capuaRuleTwo directedName
                   (snd (capuaRuleOne directedName (clearedStream melodyAll)))))) = 1
   \<and> fst (capuaRuleFourB directedName
            (snd (capuaRuleThree directedName
                   (snd (capuaRuleTwo directedName
                          (snd (capuaRuleOne directedName (clearedStream melodyAll)))))))) = 1
   \<and> coherent directedName
   \<and> accidental (pitch (melodyMixed ! 2)) = Some (Accidental ''flat'')
   \<and> accidental (pitch (snd (capuaRuleOne directedName melodyMixed) ! 2)) = None
   \<and> fst (capuaRuleTwo directedName (snd (capuaRuleOne directedName melodyMixed))) = 1
   \<and> fst (capuaRuleThree directedName
            (snd (capuaRuleTwo directedName (snd (capuaRuleOne directedName melodyMixed))))) = 1
   \<and> fst (capuaRuleFourB directedName
            (snd (capuaRuleThree directedName
                   (snd (capuaRuleTwo directedName
                          (snd (capuaRuleOne directedName melodyMixed))))))) = 1"
proof -
  have a1: "fst (capuaRuleOne directedName (clearedStream melodyAll)) = 1" by code_simp
  have a2: "fst (capuaRuleTwo directedName (clearedStream melodyAll)) = 1" by code_simp
  have a3: "fst (capuaRuleThree directedName (clearedStream melodyAll)) = 1" by code_simp
  have a4: "fst (capuaRuleFourB directedName (clearedStream melodyAll)) = 1" by code_simp
  have b0: "accidental (pitch (melodyMixed ! 2)) = Some (Accidental ''flat'')" by code_simp
  have b1: "accidental (pitch (snd (capuaRuleOne directedName melodyMixed) ! 2)) = None"
    by code_simp
  have b2: "fst (capuaRuleTwo directedName melodyMixed) = 1" by code_simp
  have b3: "fst (capuaRuleThree directedName melodyMixed) = 1" by code_simp
  have b4: "fst (capuaRuleFourB directedName melodyMixed) = 1" by code_simp
  show ?thesis
    using rule_order_independent [of melodyAll directedName melodyMixed] coherent_directedName
      a1 a2 a3 a4 b0 b1 b2 b3 b4
    by (simp add: Let_def)
qed

lemma applyCapuaToStream_ruleNumber:
  assumes fresh: "\<forall>n\<in>set s. capuaRuleNumber (editorial n) = None" and j: "j < length s"
  shows "capuaRuleNumber (editorial (applyCapuaToStream dn s ! j))
         = (if provenance dn (clearedStream s) j = 0 then None
            else Some (provenance dn (clearedStream s) j))"
proof -
  define s0 where "s0 = clearedStream s"
  define s1 where "s1 = snd (capuaRuleOne dn s0)"
  define s2 where "s2 = snd (capuaRuleTwo dn s1)"
  define s3 where "s3 = snd (capuaRuleThree dn s2)"
  define s4 where "s4 = snd (capuaRuleFourB dn s3)"
  note K = pipeline_skel(1) [OF s0_def s1_def s2_def s3_def]
  note A = pipeline_skel(2) [OF s0_def s1_def s2_def s3_def]
  have l0: "length s0 = length s" by (simp add: s0_def clearedStream_length)
  have l: "length s1 = length s" "length s2 = length s" "length s3 = length s"
    using K l0 by (metis length_map)+
  have n0: "ruleNumber (s0 ! j) = None"
    using clearedStream_ruleNumber [OF j] fresh j by (simp add: s0_def ruleNumber_def)
  have n1: "ruleNumber (s1 ! j) = (if ruleOne_fires dn s0 j then Some RULE_ONE else None)"
    using capuaRuleOne_run(4) [of s0 j dn] A j l0 n0
    by (simp add: s1_def ruleNumber_def bumpRule_def)
  have n2: "ruleNumber (s2 ! j)
            = (if ruleTwo_fires dn s0 j
               then capuaRuleNumber (bumpRule RULE_TWO (editorial (s1 ! j)))
               else ruleNumber (s1 ! j))"
    using capuaRuleTwo_run(4) [of s1 j dn] A j l fires_skel(2) [of s1 s0 dn j] K
    by (simp add: s2_def)
  have n3: "ruleNumber (s3 ! j)
            = (if ruleThree_fires dn s0 j
               then capuaRuleNumber (bumpRule RULE_THREE (editorial (s2 ! j)))
               else ruleNumber (s2 ! j))"
    using capuaRuleThree_run(4) [of s2 j dn] A j l fires_skel(3) [of s2 s0 dn j] K
    by (simp add: s3_def)
  have n4: "ruleNumber (s4 ! j)
            = (if ruleFourB_fires dn s0 j
               then capuaRuleNumber (bumpRule RULE_FOUR_B (editorial (s3 ! j)))
               else ruleNumber (s3 ! j))"
    using capuaRuleFourB_run(4) [of s3 j dn] A j l fires_skel(4) [of s3 s0 dn j] K
    by (simp add: s4_def)
  have "ruleNumber (s4 ! j) = (if provenance dn s0 j = 0 then None else Some (provenance dn s0 j))"
    using n1 n2 n3 n4
    by (simp add: ruleNumber_def bumpRule_def provenance_def RULE_ONE_def RULE_TWO_def
          RULE_THREE_def RULE_FOUR_B_def)
  then show ?thesis
    by (simp add: applyCapuaToStream_def Let_def s0_def s1_def s2_def s3_def s4_def ruleNumber_def)
qed

lemma provenance_bits:
  "provenance dn s j
     = (if ruleOne_fires dn s j then 1 else 0) OR (if ruleTwo_fires dn s j then 2 else 0)
       OR (if ruleThree_fires dn s j then 4 else 0) OR (if ruleFourB_fires dn s j then 16 else 0)"
  "(provenance dn s j AND 1 \<noteq> 0) = ruleOne_fires dn s j"
  "(provenance dn s j AND 2 \<noteq> 0) = ruleTwo_fires dn s j"
  "(provenance dn s j AND 4 \<noteq> 0) = ruleThree_fires dn s j"
  "(provenance dn s j AND 16 \<noteq> 0) = ruleFourB_fires dn s j"
  "provenance dn s j AND 8 = 0"
  by (simp_all add: provenance_def RULE_ONE_def RULE_TWO_def RULE_THREE_def RULE_FOUR_B_def)

text \<open>
  C10. Provenance mask. On a stream without earlier \<^verbatim>\<open>capuaRuleNumber\<close> annotations, after
  \<^verbatim>\<open>applyCapuaToStream\<close> the note at each position has no rule number when no rule fired
  on it, and otherwise the sum of the constants 1, 2, 4, 16 of the rules that fired on it,
  each counted once. That sum is the bitwise OR of the constants, and each bit of it tells
  whether its rule fired.
\<close>

theorem provenance_mask_invariant:
  assumes "\<forall>n\<in>set s. capuaRuleNumber (editorial n) = None" and "j < length s"
  shows "capuaRuleNumber (editorial (applyCapuaToStream dn s ! j))
           = (if provenance dn (clearedStream s) j = 0 then None
              else Some (provenance dn (clearedStream s) j))
         \<and> provenance dn (clearedStream s) j
           = (if ruleOne_fires dn (clearedStream s) j then 1 else 0)
             OR (if ruleTwo_fires dn (clearedStream s) j then 2 else 0)
             OR (if ruleThree_fires dn (clearedStream s) j then 4 else 0)
             OR (if ruleFourB_fires dn (clearedStream s) j then 16 else 0)
         \<and> (provenance dn (clearedStream s) j AND 1 \<noteq> 0) = ruleOne_fires dn (clearedStream s) j
         \<and> (provenance dn (clearedStream s) j AND 2 \<noteq> 0) = ruleTwo_fires dn (clearedStream s) j
         \<and> (provenance dn (clearedStream s) j AND 4 \<noteq> 0) = ruleThree_fires dn (clearedStream s) j
         \<and> (provenance dn (clearedStream s) j AND 16 \<noteq> 0) = ruleFourB_fires dn (clearedStream s) j"
  using applyCapuaToStream_ruleNumber [OF assms, of dn] provenance_bits [of dn "clearedStream s" j]
  by simp

theorem provenance_mask_invariant_witness:
  "capuaRuleNumber (editorial (applyCapuaToStream directedName melodyAll ! 4)) = Some 1
   \<and> capuaRuleNumber (editorial (applyCapuaToStream directedName melodyAll ! 2)) = Some 2
   \<and> capuaRuleNumber (editorial (applyCapuaToStream directedName melodyAll ! 7)) = Some 4
   \<and> capuaRuleNumber (editorial (applyCapuaToStream directedName melodyAll ! 9)) = Some 16
   \<and> capuaRuleNumber (editorial (applyCapuaToStream directedName melodyAll ! 3)) = None"
proof -
  have fresh: "\<forall>n\<in>set melodyAll. capuaRuleNumber (editorial n) = None"
    by (simp add: melodyAll_def mkNote_def emptyEditorial_def)
  have len: "4 < length melodyAll" "2 < length melodyAll" "7 < length melodyAll"
    "9 < length melodyAll" "3 < length melodyAll"
    by (simp_all add: melodyAll_def)
  have p: "provenance directedName (clearedStream melodyAll) 4 = 1"
    "provenance directedName (clearedStream melodyAll) 2 = 2"
    "provenance directedName (clearedStream melodyAll) 7 = 4"
    "provenance directedName (clearedStream melodyAll) 9 = 16"
    "provenance directedName (clearedStream melodyAll) 3 = 0"
    by code_simp+
  show ?thesis
    using provenance_mask_invariant [OF fresh len(1), of directedName]
      provenance_mask_invariant [OF fresh len(2), of directedName]
      provenance_mask_invariant [OF fresh len(3), of directedName]
      provenance_mask_invariant [OF fresh len(4), of directedName]
      provenance_mask_invariant [OF fresh len(5), of directedName] p
    by simp
qed

text \<open>
  C3, as stated: a pivot of rule four B would carry the bit 8. It does not: the constant
  of rule four B is 16, and 8 is the constant of rule four A, which the default pipeline
  does not run. In \<open>melodyAll\<close> rule four B fires on position 9, whose rule number is 16.
\<close>

theorem ruleFourB_bit_counterexample:
  "ruleFourB_fires directedName (clearedStream melodyAll) 9
   \<and> capuaRuleNumber (editorial (applyCapuaToStream directedName melodyAll ! 9)) = Some RULE_FOUR_B
   \<and> RULE_FOUR_B = 16 \<and> RULE_FOUR_B AND 8 = 0 \<and> RULE_FOUR_A = 8"
proof -
  have "ruleFourB_fires directedName (clearedStream melodyAll) 9" by code_simp
  moreover have "capuaRuleNumber (editorial (applyCapuaToStream directedName melodyAll ! 9)) = Some 16"
    by code_simp
  ultimately show ?thesis by (simp add: RULE_FOUR_B_def RULE_FOUR_A_def)
qed

text \<open>
  C3, amended. The constants are \<^verbatim>\<open>RULE_ONE = 1\<close>, \<^verbatim>\<open>RULE_TWO = 2\<close>, \<^verbatim>\<open>RULE_THREE = 4\<close>,
  \<^verbatim>\<open>RULE_FOUR_A = 8\<close>, \<^verbatim>\<open>RULE_FOUR_B = 16\<close>. On a stream without earlier rule numbers,
  every pivot on which rule four B fires in the default pipeline carries a rule number
  with the bit \<^verbatim>\<open>RULE_FOUR_B = 16\<close> set, and with the bit 8 clear.
\<close>

theorem ruleFourB_bit:
  assumes "\<forall>n\<in>set s. capuaRuleNumber (editorial n) = None" and "j < length s"
    and "ruleFourB_fires dn (clearedStream s) j"
  shows "(\<exists>v. capuaRuleNumber (editorial (applyCapuaToStream dn s ! j)) = Some v
              \<and> v AND RULE_FOUR_B = RULE_FOUR_B \<and> v AND 8 = 0)
         \<and> RULE_ONE = 1 \<and> RULE_TWO = 2 \<and> RULE_THREE = 4 \<and> RULE_FOUR_A = 8 \<and> RULE_FOUR_B = 16"
proof -
  let ?p = "provenance dn (clearedStream s) j"
  have b: "?p AND 16 \<noteq> 0" "?p AND 8 = 0"
    using provenance_bits(5,6) [of dn "clearedStream s" j] assms(3) by simp_all
  then have nz: "?p \<noteq> 0" by auto
  have "?p AND 16 = 16"
    using assms(3) by (simp add: provenance_def RULE_ONE_def RULE_TWO_def RULE_THREE_def RULE_FOUR_B_def)
  then show ?thesis
    using applyCapuaToStream_ruleNumber [OF assms(1,2), of dn] nz b
    by (simp add: RULE_ONE_def RULE_TWO_def RULE_THREE_def RULE_FOUR_A_def RULE_FOUR_B_def)
qed

theorem ruleFourB_bit_witness:
  "ruleFourB_fires directedName (clearedStream melodyAll) 9
   \<and> (\<exists>v. capuaRuleNumber (editorial (applyCapuaToStream directedName melodyAll ! 9)) = Some v
           \<and> v AND 16 = 16 \<and> v AND 8 = 0)"
proof -
  have fresh: "\<forall>n\<in>set melodyAll. capuaRuleNumber (editorial n) = None"
    by (simp add: melodyAll_def mkNote_def emptyEditorial_def)
  have len: "9 < length melodyAll" by (simp add: melodyAll_def)
  have f: "ruleFourB_fires directedName (clearedStream melodyAll) 9" by code_simp
  show ?thesis
    using ruleFourB_bit [OF fresh len f, THEN conjunct1] f by (simp add: RULE_FOUR_B_def)
qed

subsection \<open>Rule one on any stream\<close>

lemma ruleOne_other:
  assumes "j < length s" "j \<noteq> i + 1"
  shows "content (snd (capuaRuleOne_step dn i (num, s)) ! j) = content (s ! j)"
proof -
  have e: "(xs[i := a, Suc i := b, Suc (Suc i) := c]) ! j
           = (if j = i then a else if j = Suc (Suc i) then c else xs ! j)"
    if "j < length xs" for xs :: stream and a b c
    using that assms(2) by (cases "j = i"; cases "j = Suc (Suc i)") simp_all
  show ?thesis
    using assms by (simp add: capuaRuleOne_step_def Let_def e content_def del: list_update.simps)
qed

lemma ruleOne_nomatch:
  "\<not> ruleOne_match dn s i \<Longrightarrow> capuaRuleOne_step dn i (num, s) = (num, s)"
  by (auto simp add: capuaRuleOne_step_def ruleOne_match_def Let_def)

lemma ruleOne_pivot:
  assumes "ruleOne_match dn s i" "i + 2 < length s"
  shows "content (snd (capuaRuleOne_step dn i (num, s)) ! (i + 1))
         = (if accidental (pitch (s ! (i + 1))) = Some (Accidental ''flat'')
            then (False, (pitch (s ! (i + 1)))\<lparr>accidental := None\<rparr>,
                  (bumpRule RULE_ONE (editorial (s ! (i + 1))))
                    \<lparr>savedAccidental := Some (Some (Accidental ''flat'')),
                     ficta := Some (Some (Accidental ''natural'')),
                     capuaFicta := Some (Some (Accidental ''natural''))\<rparr>)
            else (False, pitch (s ! (i + 1)),
                  (bumpRule RULE_ONE (editorial (s ! (i + 1))))
                    \<lparr>ficta := Some (Some (Accidental ''sharp'')),
                     capuaFicta := Some (Some (Accidental ''sharp''))\<rparr>))"
  using assms
  by (simp add: capuaRuleOne_step_def ruleOne_match_def Let_def content_def)

lemma fold_frame:
  assumes len: "\<And>k num s. length (snd (stp k (num, s))) = length s"
  shows "(\<forall>k\<in>set js. \<forall>num s. j < length s \<longrightarrow> content (snd (stp k (num, s)) ! j) = content (s ! j))
         \<Longrightarrow> j < length s
         \<Longrightarrow> content (snd (fold stp js (num, s)) ! j) = content (s ! j)
             \<and> length (snd (fold stp js (num, s))) = length s"
proof (induction js arbitrary: num s)
  case Nil
  then show ?case by simp
next
  case (Cons k js)
  obtain num1 s1 where st: "stp k (num, s) = (num1, s1)" by (cases "stp k (num, s)")
  have l1: "length s1 = length s" using len [of k num s] st by simp
  have "\<forall>num s. j < length s \<longrightarrow> content (snd (stp k (num, s)) ! j) = content (s ! j)"
    using Cons.prems(1) by simp
  then have "content (snd (stp k (num, s)) ! j) = content (s ! j)"
    using Cons.prems(2) by blast
  then have c1: "content (s1 ! j) = content (s ! j)" by (simp add: st)
  have "content (snd (fold stp js (num1, s1)) ! j) = content (s1 ! j)
        \<and> length (snd (fold stp js (num1, s1))) = length s1"
    using Cons.IH [of s1 num1] Cons.prems l1 by simp
  then show ?case using c1 l1 by (simp add: st)
qed

lemma ruleOne_frame:
  assumes "j < length s" "\<forall>k\<in>set js. j \<noteq> k + 1"
  shows "content (snd (fold (capuaRuleOne_step dn) js (num, s)) ! j) = content (s ! j)"
    and "length (snd (fold (capuaRuleOne_step dn) js (num, s))) = length s"
  using fold_frame [of "capuaRuleOne_step dn" js j s num, OF ruleOne_len] assms ruleOne_other
  by simp_all

lemma ruleOne_fold_nomatch:
  "(\<forall>k\<in>set js. \<not> ruleOne_match dn s k) \<Longrightarrow> fold (capuaRuleOne_step dn) js (num, s) = (num, s)"
  by (induction js) (simp_all add: ruleOne_nomatch)

lemma ruleOne_match_content:
  assumes "content (s ! i) = content (t ! i) \<or> skel (s ! i) = skel (t ! i)"
    and "skel (s ! (i + 1)) = skel (t ! (i + 1))" and "skel (s ! (i + 2)) = skel (t ! (i + 2))"
  shows "ruleOne_match dn s i = ruleOne_match dn t i"
  using assms by (auto simp add: ruleOne_match_def skel_def content_def)

text \<open>Before the scan reaches window \<open>i\<close>, only colours and the pivot of window \<open>i - 1\<close> change.\<close>

lemma ruleOne_before:
  assumes i: "i + 2 < length s" and acc: "accidental (pitch (s ! i)) = None"
    and sa_def: "sa = snd (fold (capuaRuleOne_step dn) [0 ..< i] (num, s))"
  shows "length sa = length s" and "skel (sa ! i) = skel (s ! i)"
    and "content (sa ! (i + 1)) = content (s ! (i + 1))"
    and "content (sa ! (i + 2)) = content (s ! (i + 2))"
proof -
  show "length sa = length s" unfolding sa_def using ruleOne_frame(2) [of "i + 2" s "[0 ..< i]"] i by simp
  show "content (sa ! (i + 1)) = content (s ! (i + 1))"
    unfolding sa_def using ruleOne_frame(1) [of "i + 1" s "[0 ..< i]"] i by simp
  show "content (sa ! (i + 2)) = content (s ! (i + 2))"
    unfolding sa_def using ruleOne_frame(1) [of "i + 2" s "[0 ..< i]"] i by simp
  show "skel (sa ! i) = skel (s ! i)"
  proof (cases i)
    case 0
    then show ?thesis by (simp add: sa_def)
  next
    case (Suc m)
    obtain nm sm where m: "fold (capuaRuleOne_step dn) [0 ..< m] (num, s) = (nm, sm)"
      by (cases "fold (capuaRuleOne_step dn) [0 ..< m] (num, s)")
    have lm: "length sm = length s"
      using ruleOne_frame(2) [of i s "[0 ..< m]" dn num] i Suc m by simp
    have cm: "content (sm ! i) = content (s ! i)"
      using ruleOne_frame(1) [of i s "[0 ..< m]" dn num] i Suc m by simp
    then have am: "accidental (pitch (sm ! i)) = None" using acc by (simp add: content_def)
    have sa: "sa = snd (capuaRuleOne_step dn m (nm, sm))"
      by (simp add: sa_def Suc m)
    have "skel (snd (capuaRuleOne_step dn m (nm, sm)) ! i) = skel (sm ! i)"
    proof (cases "ruleOne_match dn sm m")
      case True
      then show ?thesis
        using ruleOne_pivot [OF True, of nm] True am lm i Suc
        by (simp add: content_def skel_def ruleOne_match_def)
    next
      case False
      then show ?thesis by (simp add: ruleOne_nomatch)
    qed
    then show ?thesis using cm sa by (simp add: content_def skel_def)
  qed
qed

text \<open>
  C5. Rule one fires correctly. Take any stream and any window of three consecutive notes
  in it, none a rest, with directed intervals M-2 then M2, no accidental on either outer
  note, and a pivot whose step is neither A nor D. After \<^verbatim>\<open>capuaRuleOne\<close> the pivot has
  had \<^verbatim>\<open>RULE_ONE\<close> added to its rule number exactly once; if the pivot was flat, its
  \<^verbatim>\<open>capuaFicta\<close> and \<^verbatim>\<open>ficta\<close> are natural, the flat is saved and the pitch has no
  accidental; otherwise they are sharp and the pitch is unchanged. The count returned is
  at least 1, and it is 1 when the stream holds exactly that match: no earlier window
  passes the test, and no later window passes it on the stream as this match leaves it
  (with the pivot's flat cleared, if it had one).
\<close>

theorem ruleOne_fires_correctly:
  assumes win: "i + 2 < length s"
    and nr: "\<not> isRest (s ! i)" "\<not> isRest (s ! (i + 1))" "\<not> isRest (s ! (i + 2))"
    and down: "dn (pitch (s ! i)) (pitch (s ! (i + 1))) = ''M-2''"
    and up: "dn (pitch (s ! (i + 1))) (pitch (s ! (i + 2))) = ''M2''"
    and outer: "accidental (pitch (s ! i)) = None" "accidental (pitch (s ! (i + 2))) = None"
    and pivot: "step (pitch (s ! (i + 1))) \<noteq> ''A''" "step (pitch (s ! (i + 1))) \<noteq> ''D''"
  shows "(let p = s ! (i + 1); p' = snd (capuaRuleOne dn s) ! (i + 1) in
          capuaRuleNumber (editorial p') = capuaRuleNumber (bumpRule RULE_ONE (editorial p))
          \<and> (if accidental (pitch p) = Some (Accidental ''flat'')
             then capuaFicta (editorial p') = Some (Some (Accidental ''natural''))
                  \<and> ficta (editorial p') = Some (Some (Accidental ''natural''))
                  \<and> savedAccidental (editorial p') = Some (Some (Accidental ''flat''))
                  \<and> accidental (pitch p') = None
             else capuaFicta (editorial p') = Some (Some (Accidental ''sharp''))
                  \<and> ficta (editorial p') = Some (Some (Accidental ''sharp''))
                  \<and> pitch p' = pitch p))
         \<and> 1 \<le> fst (capuaRuleOne dn s)
         \<and> ((\<forall>k<i. \<not> ruleOne_match dn s k)
             \<and> (\<forall>k. i < k \<and> k + 2 < length s \<longrightarrow>
                   \<not> ruleOne_match dn
                       (if accidental (pitch (s ! (i + 1))) = Some (Accidental ''flat'')
                        then s[i + 1 := (s ! (i + 1))\<lparr>pitch := (pitch (s ! (i + 1)))\<lparr>accidental := None\<rparr>\<rparr>]
                        else s) k)
             \<longrightarrow> fst (capuaRuleOne dn s) = 1)"
proof -
  let ?stp = "capuaRuleOne_step dn"
  let ?n = "length s - 2"
  have split: "[0 ..< ?n] = [0 ..< i] @ i # [Suc i ..< ?n]"
  proof -
    have "[0 ..< i + (?n - i)] = [0 ..< i] @ [i ..< i + (?n - i)]"
      by (rule upt_add_eq_append) simp
    moreover have "i < ?n" using win by simp
    ultimately show ?thesis by (simp add: upt_conv_Cons)
  qed
  obtain na sa where a: "fold ?stp [0 ..< i] (0, s) = (na, sa)"
    by (cases "fold ?stp [0 ..< i] (0, s)")
  obtain nb sb where b: "?stp i (na, sa) = (nb, sb)" by (cases "?stp i (na, sa)")
  obtain nc sc where c: "fold ?stp [Suc i ..< ?n] (nb, sb) = (nc, sc)"
    by (cases "fold ?stp [Suc i ..< ?n] (nb, sb)")
  have run: "capuaRuleOne dn s = (nc, sc)"
    by (simp add: capuaRuleOne_def split a b c)
  have "sa = snd (fold ?stp [0 ..< i] (0, s))" by (simp add: a)
  note B = ruleOne_before [OF win outer(1) this]
  have ms: "ruleOne_match dn s i"
    using nr down up outer pivot by (simp add: ruleOne_match_def)
  have ma: "ruleOne_match dn sa i"
    using ms ruleOne_match_content [of sa i s dn] B by (simp add: content_def skel_def)
  have lsa: "i + 2 < length sa" using B(1) win by simp
  have pb: "content (sb ! (i + 1))
         = (if accidental (pitch (s ! (i + 1))) = Some (Accidental ''flat'')
            then (False, (pitch (s ! (i + 1)))\<lparr>accidental := None\<rparr>,
                  (bumpRule RULE_ONE (editorial (s ! (i + 1))))
                    \<lparr>savedAccidental := Some (Some (Accidental ''flat'')),
                     ficta := Some (Some (Accidental ''natural'')),
                     capuaFicta := Some (Some (Accidental ''natural''))\<rparr>)
            else (False, pitch (s ! (i + 1)),
                  (bumpRule RULE_ONE (editorial (s ! (i + 1))))
                    \<lparr>ficta := Some (Some (Accidental ''sharp'')),
                     capuaFicta := Some (Some (Accidental ''sharp''))\<rparr>))"
    using ruleOne_pivot [OF ma lsa, of na] b B(3) by (simp add: content_def)
  have lsb: "length sb = length s" using ruleOne_len [of dn i na sa] b B(1) by simp
  have pc: "content (sc ! (i + 1)) = content (sb ! (i + 1))"
    using ruleOne_frame(1) [of "i + 1" sb "[Suc i ..< ?n]" dn nb] c lsb win by simp
  have nb: "nb = na + 1" using ruleOne_cnt [of dn i na sa] b ma by simp
  have nc: "nb \<le> nc"
  proof -
    have "\<And>js num t. num \<le> fst (fold ?stp js (num, t))"
    proof -
      fix js num t show "num \<le> fst (fold ?stp js (num, t))"
      proof (induction js arbitrary: num t)
        case Nil then show ?case by simp
      next
        case (Cons k js)
        obtain n1 t1 where st: "?stp k (num, t) = (n1, t1)" by (cases "?stp k (num, t)")
        have "num \<le> n1" using ruleOne_cnt [of dn k num t] st by (simp split: if_splits)
        then show ?case using Cons.IH [of n1 t1] by (simp add: st)
      qed
    qed
    from this [of nb "[Suc i ..< ?n]" sb] c show ?thesis by simp
  qed
  have part1: "(let p = s ! (i + 1); p' = snd (capuaRuleOne dn s) ! (i + 1) in
          capuaRuleNumber (editorial p') = capuaRuleNumber (bumpRule RULE_ONE (editorial p))
          \<and> (if accidental (pitch p) = Some (Accidental ''flat'')
             then capuaFicta (editorial p') = Some (Some (Accidental ''natural''))
                  \<and> ficta (editorial p') = Some (Some (Accidental ''natural''))
                  \<and> savedAccidental (editorial p') = Some (Some (Accidental ''flat''))
                  \<and> accidental (pitch p') = None
             else capuaFicta (editorial p') = Some (Some (Accidental ''sharp''))
                  \<and> ficta (editorial p') = Some (Some (Accidental ''sharp''))
                  \<and> pitch p' = pitch p))"
    using pb pc by (simp add: run Let_def content_def bumpRule_def split: if_splits)
  have part2: "1 \<le> fst (capuaRuleOne dn s)" using nb nc by (simp add: run)
  have part3: "fst (capuaRuleOne dn s) = 1"
    if only: "\<forall>k<i. \<not> ruleOne_match dn s k"
      and later: "\<forall>k. i < k \<and> k + 2 < length s \<longrightarrow>
                   \<not> ruleOne_match dn
                       (if accidental (pitch (s ! (i + 1))) = Some (Accidental ''flat'')
                        then s[i + 1 := (s ! (i + 1))\<lparr>pitch := (pitch (s ! (i + 1)))\<lparr>accidental := None\<rparr>\<rparr>]
                        else s) k"
  proof -
    let ?t = "(if accidental (pitch (s ! (i + 1))) = Some (Accidental ''flat'')
                        then s[i + 1 := (s ! (i + 1))\<lparr>pitch := (pitch (s ! (i + 1)))\<lparr>accidental := None\<rparr>\<rparr>]
                        else s)"
    have a0: "(na, sa) = (0, s)"
      using ruleOne_fold_nomatch [of "[0 ..< i]" dn s 0] only a by simp
    have lt: "length ?t = length s" by simp
    have sk: "map skel sb = map skel ?t"
    proof (rule nth_equalityI)
      show "length (map skel sb) = length (map skel ?t)" using lsb by simp
      fix j assume "j < length (map skel sb)"
      then have j: "j < length s" using lsb by simp
      show "map skel sb ! j = map skel ?t ! j"
      proof (cases "j = i + 1")
        case True
        then show ?thesis using pb j lsb win nr(2)
          by (auto simp add: content_def skel_def split: if_splits)
      next
        case False
        have "content (sb ! j) = content (s ! j)"
          using ruleOne_other [of j sa i dn na] False j b a0 by simp
        then show ?thesis using False j lsb by (simp add: content_def skel_def)
      qed
    qed
    have "\<forall>k\<in>set [Suc i ..< ?n]. \<not> ruleOne_match dn sb k"
    proof
      fix k assume "k \<in> set [Suc i ..< ?n]"
      then have k: "i < k" "k + 2 < length s" by auto
      have "ruleOne_match dn sb k = ruleOne_match dn ?t k"
        using ruleOne_Mskel [OF sk, of k dn] k lsb by simp
      then show "\<not> ruleOne_match dn sb k" using later k by blast
    qed
    then have "(nc, sc) = (nb, sb)"
      using ruleOne_fold_nomatch [of "[Suc i ..< ?n]" dn sb nb] c by simp
    then show ?thesis using nb a0 by (simp add: run)
  qed
  show ?thesis using part1 part2 part3 by blast
qed

theorem ruleOne_fires_correctly_witness:
  "fst (capuaRuleOne directedName melodyFlat) = 1
   \<and> accidental (pitch (melodyFlat ! 2)) = Some (Accidental ''flat'')
   \<and> capuaFicta (editorial (snd (capuaRuleOne directedName melodyFlat) ! 2))
       = Some (Some (Accidental ''natural''))
   \<and> accidental (pitch (snd (capuaRuleOne directedName melodyFlat) ! 2)) = None
   \<and> capuaRuleNumber (editorial (snd (capuaRuleOne directedName melodyFlat) ! 2)) = Some 1
   \<and> fst (capuaRuleOne directedName melodyGFG) = 1
   \<and> accidental (pitch (melodyGFG ! 1)) = None
   \<and> capuaFicta (editorial (snd (capuaRuleOne directedName melodyGFG) ! 1))
       = Some (Some (Accidental ''sharp''))
   \<and> accidental (pitch (snd (capuaRuleOne directedName melodyGFG) ! 1)) = None"
proof -
  have h: "1 + 2 < length melodyFlat"
    "\<not> isRest (melodyFlat ! 1)" "\<not> isRest (melodyFlat ! (1 + 1))" "\<not> isRest (melodyFlat ! (1 + 2))"
    "directedName (pitch (melodyFlat ! 1)) (pitch (melodyFlat ! (1 + 1))) = ''M-2''"
    "directedName (pitch (melodyFlat ! (1 + 1))) (pitch (melodyFlat ! (1 + 2))) = ''M2''"
    "accidental (pitch (melodyFlat ! 1)) = None" "accidental (pitch (melodyFlat ! (1 + 2))) = None"
    "step (pitch (melodyFlat ! (1 + 1))) \<noteq> ''A''" "step (pitch (melodyFlat ! (1 + 1))) \<noteq> ''D''"
    by code_simp+
  have fl: "accidental (pitch (melodyFlat ! 2)) = Some (Accidental ''flat'')" by code_simp
  have e: "capuaRuleNumber (bumpRule RULE_ONE (editorial (melodyFlat ! 2))) = Some 1" by code_simp
  have before: "\<forall>k<1. \<not> ruleOne_match directedName melodyFlat k"
  proof (intro allI impI)
    fix k :: nat assume "k < 1"
    then have "k = 0" by simp
    moreover have "\<not> ruleOne_match directedName melodyFlat 0" by code_simp
    ultimately show "\<not> ruleOne_match directedName melodyFlat k" by simp
  qed
  have after: "\<forall>k. 1 < k \<and> k + 2 < length melodyFlat \<longrightarrow>
                 \<not> ruleOne_match directedName
                     (if accidental (pitch (melodyFlat ! (1 + 1))) = Some (Accidental ''flat'')
                      then melodyFlat[1 + 1 := (melodyFlat ! (1 + 1))
                             \<lparr>pitch := (pitch (melodyFlat ! (1 + 1)))\<lparr>accidental := None\<rparr>\<rparr>]
                      else melodyFlat) k"
  proof (intro allI impI)
    fix k :: nat assume "1 < k \<and> k + 2 < length melodyFlat"
    then have "k = 2" by (simp add: melodyFlat_def)
    moreover have "\<not> ruleOne_match directedName
                     (if accidental (pitch (melodyFlat ! (1 + 1))) = Some (Accidental ''flat'')
                      then melodyFlat[1 + 1 := (melodyFlat ! (1 + 1))
                             \<lparr>pitch := (pitch (melodyFlat ! (1 + 1)))\<lparr>accidental := None\<rparr>\<rparr>]
                      else melodyFlat) 2" by code_simp
    ultimately show "\<not> ruleOne_match directedName
                     (if accidental (pitch (melodyFlat ! (1 + 1))) = Some (Accidental ''flat'')
                      then melodyFlat[1 + 1 := (melodyFlat ! (1 + 1))
                             \<lparr>pitch := (pitch (melodyFlat ! (1 + 1)))\<lparr>accidental := None\<rparr>\<rparr>]
                      else melodyFlat) k" by simp
  qed
  note T = ruleOne_fires_correctly [of 1 melodyFlat directedName, OF h]
  from T before after have c1: "fst (capuaRuleOne directedName melodyFlat) = 1" by blast
  from T fl e have p1:
    "capuaFicta (editorial (snd (capuaRuleOne directedName melodyFlat) ! 2))
       = Some (Some (Accidental ''natural''))
     \<and> accidental (pitch (snd (capuaRuleOne directedName melodyFlat) ! 2)) = None
     \<and> capuaRuleNumber (editorial (snd (capuaRuleOne directedName melodyFlat) ! 2)) = Some 1"
    by (simp add: Let_def numeral_2_eq_2)
  have g: "0 + 2 < length melodyGFG"
    "\<not> isRest (melodyGFG ! 0)" "\<not> isRest (melodyGFG ! (0 + 1))" "\<not> isRest (melodyGFG ! (0 + 2))"
    "directedName (pitch (melodyGFG ! 0)) (pitch (melodyGFG ! (0 + 1))) = ''M-2''"
    "directedName (pitch (melodyGFG ! (0 + 1))) (pitch (melodyGFG ! (0 + 2))) = ''M2''"
    "accidental (pitch (melodyGFG ! 0)) = None" "accidental (pitch (melodyGFG ! (0 + 2))) = None"
    "step (pitch (melodyGFG ! (0 + 1))) \<noteq> ''A''" "step (pitch (melodyGFG ! (0 + 1))) \<noteq> ''D''"
    by code_simp+
  have nf: "accidental (pitch (melodyGFG ! 1)) = None" by code_simp
  have l3: "length melodyGFG = 3" by (simp add: melodyGFG_def)
  note U = ruleOne_fires_correctly [of 0 melodyGFG directedName, OF g]
  from U l3 have c2: "fst (capuaRuleOne directedName melodyGFG) = 1" by simp
  from U nf have p2:
    "capuaFicta (editorial (snd (capuaRuleOne directedName melodyGFG) ! 1))
       = Some (Some (Accidental ''sharp''))
     \<and> accidental (pitch (snd (capuaRuleOne directedName melodyGFG) ! 1)) = None"
    by (simp add: Let_def)
  from c1 fl p1 c2 nf p2 show ?thesis by simp
qed

subsection \<open>Skipping in the corpus loops\<close>

lemma foldE_skip:
  assumes "\<And>s. f x s = Inr s"
  shows "foldE f (xs @ x # ys) s = foldE f (xs @ ys) s"
  by (induction xs arbitrary: s) (simp_all add: assms split: sum.splits)

lemma findCorrections_piece_unset:
  "incipit (makeWork j) = None \<Longrightarrow>
   findCorrections_piece dn attach makeWork ct ntc snc j st = Inr st"
  by (simp add: findCorrections_piece_def)

lemma improvedHarmony_piece_unset:
  "incipit (makeWork j) = None \<Longrightarrow> improvedHarmony_piece dn attach makeWork j cd = Inr cd"
  by (simp add: improvedHarmony_piece_def)

lemma findCorrections_snippet_thin:
  "length (parts sn) < 2 \<Longrightarrow>
   findCorrections_snippet dn attach ct ntc snc j (k, Some sn) st = Inr st"
  by (cases st) (simp add: findCorrections_snippet_def)

lemma improvedHarmony_snippet_thin:
  "length (parts sn) < 2 \<Longrightarrow> improvedHarmony_snippet dn attach (Some sn) cd = Inr cd"
  by (simp add: improvedHarmony_snippet_def)

text \<open>
  C8. Defensive skipping. In \<^verbatim>\<open>findCorrections\<close> and in \<^verbatim>\<open>improvedHarmony\<close>, a work whose
  incipit is unset and a snippet with fewer than two parts are skipped: the loop body
  returns without an error and leaves the tallies (and the Opus) as they were, and the
  whole run is the run over the remaining works, or over the remaining snippets.
\<close>

theorem defensive_skipping:
  "(incipit (makeWork j) = None \<longrightarrow>
      findCorrections_piece dn attach makeWork ct ntc snc j st = Inr st
      \<and> improvedHarmony_piece dn attach makeWork j cd = Inr cd
      \<and> findCorrections_over dn attach makeWork ct (js @ j # js')
          = findCorrections_over dn attach makeWork ct (js @ js')
      \<and> improvedHarmony_over dn attach makeWork (js @ j # js')
          = improvedHarmony_over dn attach makeWork (js @ js')
      \<and> (a \<le> j \<and> j < b \<longrightarrow>
           findCorrections dn attach makeWork ct a b
             = findCorrections_over dn attach makeWork ct ([a ..< j] @ [Suc j ..< b])
           \<and> improvedHarmony dn attach makeWork a b
             = improvedHarmony_over dn attach makeWork ([a ..< j] @ [Suc j ..< b])))
   \<and> (length (parts sn) < 2 \<longrightarrow>
      findCorrections_snippet dn attach ct ntc snc j (k, Some sn) st = Inr st
      \<and> improvedHarmony_snippet dn attach (Some sn) cd = Inr cd
      \<and> foldE (findCorrections_snippet dn attach ct ntc snc j) (xs @ (k, Some sn) # ys) st
          = foldE (findCorrections_snippet dn attach ct ntc snc j) (xs @ ys) st
      \<and> foldE (improvedHarmony_snippet dn attach) (ss @ Some sn # ss') cd
          = foldE (improvedHarmony_snippet dn attach) (ss @ ss') cd)"
proof (intro conjI impI)
  assume u: "incipit (makeWork j) = None"
  have p: "findCorrections_piece dn attach makeWork c n m j t = Inr t" for c n m t
    using u by (rule findCorrections_piece_unset)
  have sk: "foldE (findCorrections_piece dn attach makeWork c n m) (ks @ j # ks') t
            = foldE (findCorrections_piece dn attach makeWork c n m) (ks @ ks') t"
    for c n m t ks ks'
    by (rule foldE_skip) (rule p)
  have p': "improvedHarmony_piece dn attach makeWork j t = Inr t" for t
    using u by (rule improvedHarmony_piece_unset)
  show "findCorrections_piece dn attach makeWork ct ntc snc j st = Inr st" by (rule p)
  show "improvedHarmony_piece dn attach makeWork j cd = Inr cd" by (rule p')
  have over: "findCorrections_over dn attach makeWork ct (ks @ j # ks')
          = findCorrections_over dn attach makeWork ct (ks @ ks')" for ks ks'
    by (simp add: findCorrections_over_def sk)
  have over': "improvedHarmony_over dn attach makeWork (ks @ j # ks')
          = improvedHarmony_over dn attach makeWork (ks @ ks')" for ks ks'
    unfolding improvedHarmony_over_def by (rule foldE_skip) (rule p')
  show "findCorrections_over dn attach makeWork ct (js @ j # js')
          = findCorrections_over dn attach makeWork ct (js @ js')" by (rule over)
  show "improvedHarmony_over dn attach makeWork (js @ j # js')
          = improvedHarmony_over dn attach makeWork (js @ js')" by (rule over')
  assume r: "a \<le> j \<and> j < b"
  have split: "[a ..< b] = [a ..< j] @ j # [Suc j ..< b]"
    using r by (metis le_Suc_ex less_imp_le_nat upt_add_eq_append upt_conv_Cons)
  show "findCorrections dn attach makeWork ct a b
             = findCorrections_over dn attach makeWork ct ([a ..< j] @ [Suc j ..< b])"
    by (simp only: findCorrections_def split over)
  show "improvedHarmony dn attach makeWork a b
             = improvedHarmony_over dn attach makeWork ([a ..< j] @ [Suc j ..< b])"
    by (simp only: improvedHarmony_def split over')
next
  assume t: "length (parts sn) < 2"
  have q: "findCorrections_snippet dn attach ct ntc snc j (k, Some sn) t = Inr t" for t
    using t by (rule findCorrections_snippet_thin)
  have q': "improvedHarmony_snippet dn attach (Some sn) t = Inr t" for t
    using t by (rule improvedHarmony_snippet_thin)
  show "findCorrections_snippet dn attach ct ntc snc j (k, Some sn) st = Inr st" by (rule q)
  show "improvedHarmony_snippet dn attach (Some sn) cd = Inr cd" by (rule q')
  show "foldE (findCorrections_snippet dn attach ct ntc snc j) (xs @ (k, Some sn) # ys) st
          = foldE (findCorrections_snippet dn attach ct ntc snc j) (xs @ ys) st"
    by (rule foldE_skip) (rule q)
  show "foldE (improvedHarmony_snippet dn attach) (ss @ Some sn # ss') cd
          = foldE (improvedHarmony_snippet dn attach) (ss @ ss') cd"
    by (rule foldE_skip) (rule q')
qed

theorem defensive_skipping_witness:
  "findCorrections_piece directedName storedIntervals corpus ''Maj3'' 1 ''m3'' 0 (zeroCorrectionDict, [])
     = Inr (zeroCorrectionDict, [])
   \<and> improvedHarmony_piece directedName storedIntervals corpus 0 zeroCheckDict = Inr zeroCheckDict
   \<and> findCorrections directedName storedIntervals corpus ''Maj3'' 0 2
     = findCorrections_over directedName storedIntervals corpus ''Maj3'' ([0 ..< 0] @ [Suc 0 ..< 2])
   \<and> improvedHarmony directedName storedIntervals corpus 0 2
     = improvedHarmony_over directedName storedIntervals corpus ([0 ..< 0] @ [Suc 0 ..< 2])
   \<and> improvedHarmony directedName storedIntervals corpus 0 2
     = Inr \<lparr>perfIgnored = 4, perfCapua = 0, imperfIgnored = 0, imperfCapua = 0\<rparr>
   \<and> findCorrections_snippet directedName storedIntervals ''Maj3'' 1 ''m3'' 1 (0, Some solo)
        (zeroCorrectionDict, [])
     = Inr (zeroCorrectionDict, [])
   \<and> improvedHarmony_snippet directedName storedIntervals (Some solo) zeroCheckDict = Inr zeroCheckDict
   \<and> foldE (improvedHarmony_snippet directedName storedIntervals) ([] @ Some solo # [Some cadence])
        zeroCheckDict
     = foldE (improvedHarmony_snippet directedName storedIntervals) ([] @ [Some cadence]) zeroCheckDict"
proof -
  have u: "incipit (corpus 0) = None" by (simp add: corpus_def)
  have t: "length (parts solo) < 2" by (simp add: solo_def)
  have r: "(0::nat) \<le> 0 \<and> (0::nat) < 2" by simp
  have v: "improvedHarmony_over directedName storedIntervals corpus ([0 ..< 0] @ [Suc 0 ..< 2])
           = Inr \<lparr>perfIgnored = 4, perfCapua = 0, imperfIgnored = 0, imperfCapua = 0\<rparr>"
    by code_simp
  show ?thesis
    using defensive_skipping [where makeWork = corpus and j = 0 and sn = solo and a = 0 and b = 2
        and dn = directedName and attach = storedIntervals and ct = "''Maj3''" and ntc = 1
        and snc = "''m3''" and st = "(zeroCorrectionDict, [])" and cd = zeroCheckDict and k = 0
        and ss = "[]" and ss' = "[Some cadence]"]
      defensive_skipping [where makeWork = corpus and j = 1 and sn = solo
        and dn = directedName and attach = storedIntervals and ct = "''Maj3''" and ntc = 1
        and snc = "''m3''" and st = "(zeroCorrectionDict, [])" and cd = zeroCheckDict and k = 0
        and ss = "[]" and ss' = "[Some cadence]"] u t r v
    by simp
qed

subsection \<open>The Opus of the correction search\<close>

text \<open>
  \<^verbatim>\<open>findCorrections\<close> inserts a snippet into the Opus as soon as it starts to process it,
  and sets \<^verbatim>\<open>thisSnippetAppended\<close>; the later insertion, at the first note with
  \<^verbatim>\<open>capuaNotPmfc = 1\<close>, then never happens. The Opus returned is the list of all the
  processed snippets.
\<close>

lemma findCorrections_note_appended:
  "\<exists>t1. findCorrections_note ct ntc snc sid notes x (t, opus, True) = (t1, opus, True)"
  by (cases x) (simp add: findCorrections_note_def Let_def split: option.splits)

lemma findCorrections_notes_appended:
  "\<exists>t1. fold (findCorrections_note ct ntc snc sid notes) xs (t, opus, True) = (t1, opus, True)"
proof (induction xs arbitrary: t)
  case Nil
  show ?case by simp
next
  case (Cons x xs)
  obtain t1 where "findCorrections_note ct ntc snc sid notes x (t, opus, True) = (t1, opus, True)"
    using findCorrections_note_appended by blast
  then show ?case using Cons.IH [of t1] by simp
qed

lemma findCorrections_snippet_opus:
  assumes "findCorrections_snippet dn attach ct ntc snc j (k, sn) (t, opus) = Inr (t', opus')"
  shows "opus' = opus @ (if isProcessed sn then [(j, k)] else [])"
proof (cases "isProcessed sn")
  case False
  then show ?thesis using assms
    by (auto simp add: findCorrections_snippet_def isProcessed_def split: option.splits if_splits)
next
  case True
  then obtain s where s: "sn = Some s" "''Incipit'' \<notin> set (classes s)" "\<not> length (parts s) < 2"
    by (auto simp add: isProcessed_def split: option.splits)
  from assms obtain pc pt where p: "map_of (parts s) ''C'' = Some pc" "map_of (parts s) ''T'' = Some pt"
    using s by (auto simp add: findCorrections_snippet_def split: option.splits)
  let ?s1 = "applyCapuaToStream dn (attach pc pt)"
  let ?s2 = "applyCapuaToStream dn (attach pt (attach pc pt))"
  let ?f = "\<lambda>ss. fold (findCorrections_note ct ntc snc (j, k) (filter (\<lambda>n. \<not> isRest n) ss))
                     (enumerate 0 (filter (\<lambda>n. \<not> isRest n) ss))"
  obtain t1 where a: "?f ?s1 (t, opus @ [(j, k)], True) = (t1, opus @ [(j, k)], True)"
    using findCorrections_notes_appended by blast
  obtain t2 where b: "?f ?s2 (t1, opus @ [(j, k)], True) = (t2, opus @ [(j, k)], True)"
    using findCorrections_notes_appended by blast
  have "findCorrections_snippet dn attach ct ntc snc j (k, sn) (t, opus) = Inr (t2, opus @ [(j, k)])"
    using s p a b by (simp add: findCorrections_snippet_def Let_def)
  then show ?thesis using assms True by simp
qed

lemma findCorrections_snippets_opus:
  "foldE (findCorrections_snippet dn attach ct ntc snc j) xs (t, opus) = Inr (t', opus') \<Longrightarrow>
   opus' = opus @ map (\<lambda>(k, sn). (j, k)) (filter (\<lambda>(k, sn). isProcessed sn) xs)"
proof (induction xs arbitrary: t opus)
  case Nil
  then show ?case by simp
next
  case (Cons x xs)
  obtain k sn where x: "x = (k, sn)" by (cases x)
  from Cons.prems obtain t1 o1 where
    1: "findCorrections_snippet dn attach ct ntc snc j (k, sn) (t, opus) = Inr (t1, o1)"
    and 2: "foldE (findCorrections_snippet dn attach ct ntc snc j) xs (t1, o1) = Inr (t', opus')"
    by (auto simp add: x split: sum.splits)
  show ?case
    using findCorrections_snippet_opus [OF 1] Cons.IH [OF 2] by (simp add: x)
qed

lemma findCorrections_pieces_opus:
  "foldE (findCorrections_piece dn attach makeWork ct ntc snc) js (t, opus) = Inr (t', opus') \<Longrightarrow>
   opus' = opus @ processedSnippets makeWork js"
proof (induction js arbitrary: t opus)
  case Nil
  then show ?case by (simp add: processedSnippets_def)
next
  case (Cons j js)
  from Cons.prems obtain t1 o1 where
    1: "findCorrections_piece dn attach makeWork ct ntc snc j (t, opus) = Inr (t1, o1)"
    and 2: "foldE (findCorrections_piece dn attach makeWork ct ntc snc) js (t1, o1) = Inr (t', opus')"
    by (auto split: sum.splits)
  have "o1 = opus @ processedSnippets makeWork [j]"
  proof (cases "incipit (makeWork j) = None")
    case True
    then show ?thesis using 1 by (simp add: findCorrections_piece_def processedSnippets_def Let_def)
  next
    case False
    have "foldE (findCorrections_snippet dn attach ct ntc snc j)
                 (enumerate 0 (snippets (makeWork j))) (t, opus) = Inr (t1, o1)"
      using 1 False by (auto simp add: findCorrections_piece_def Let_def split: if_splits)
    from findCorrections_snippets_opus [OF this] False show ?thesis
      by (auto simp add: processedSnippets_def)
  qed
  then show ?case using Cons.IH [OF 2] by (simp add: processedSnippets_def)
qed

lemma findCorrections_opus:
  assumes "findCorrections dn attach makeWork ct startPiece endPiece = Inr (totalDict, foundPieceOpus)"
  shows "foundPieceOpus = processedSnippets makeWork [startPiece ..< endPiece]"
  using assms findCorrections_pieces_opus [of dn attach makeWork ct _ _ "[startPiece ..< endPiece]"
      zeroCorrectionDict "[]" totalDict foundPieceOpus]
  by (auto simp add: findCorrections_def findCorrections_over_def split: if_splits)

text \<open>
  C9. Filtered display collection: the Opus would hold exactly the processed snippets with
  a qualifying note counted under \<^verbatim>\<open>capuaNotPmfc\<close>. The code does otherwise. In work 1 of
  \<open>corpus\<close> no note qualifies (every tally is zero, \<^verbatim>\<open>potentialChange\<close> included), and the
  Opus still holds the snippet at position 1.
\<close>

theorem findCorrections_opus_unfiltered:
  "findCorrections directedName storedIntervals corpus ''Maj3'' 1 2
   = Inr (zeroCorrectionDict, [(1, 1)])"
  by code_simp

end
